(* ===== verification/Prelude.thy ===== *)
theory Prelude
  imports Main "HOL-Library.Word" "HOL-Library.Code_Target_Numeral"
begin

text \<open>
  Shared vocabulary of the TinyRedis development: the types that stand for Go's
  byte slices and runtime failures, the Go builtins the source calls (\<open>copy\<close>,
  slicing), powers of two, and the lemmas on lists and rotations that the
  component theories share.  Nothing here models a function of the repository;
  these are the language-level facts the component models are written in.
\<close>

named_theorems ring_simps "rewrite rules for reading the ring buffer through its rotation"

section \<open>Go values\<close>

text \<open>
  A Go \<open>[]byte\<close> is a byte string or \<open>nil\<close>; the model keeps the two apart,
  because the list entity clears vacated slots to \<open>nil\<close> and a multi-bulk reply
  encodes a \<open>nil\<close> argument differently from an empty one.  HOL's \<open>char\<close> is
  a byte, so a byte string is a \<open>string\<close>.
\<close>

type_synonym bytes = string
type_synonym byteslice = "bytes option"

text \<open>Runtime panics of the Go code that the model makes explicit (\<open>Inl\<close>).\<close>

datatype go_error =
    MakeLenOutOfRange   \<comment> \<open>\<open>make([]T, n)\<close> with \<open>n < 0\<close>\<close>
  | NilDereference      \<comment> \<open>a method called through a \<open>nil\<close> interface or pointer\<close>
  | CloseOfClosedChannel  \<comment> \<open>\<open>close(ch)\<close> on a channel already closed\<close>

section \<open>Go builtins\<close>

text \<open>
  \<open>copy(dst, src)\<close> overwrites the first \<open>min(len(dst), len(src))\<close> slots of
  \<open>dst\<close> and returns that count; \<open>xs[lo:hi]\<close> is the slice of the slots
  \<open>lo\<close> to \<open>hi - 1\<close> (the callers keep \<open>lo \<le> hi \<le> len(xs)\<close>).
\<close>

definition go_copy :: "'a list \<Rightarrow> 'a list \<Rightarrow> 'a list \<times> nat" where
  "go_copy dst src =
     (let n = min (length dst) (length src) in (take n src @ drop n dst, n))"

definition go_slice :: "'a list \<Rightarrow> nat \<Rightarrow> nat \<Rightarrow> 'a list" where
  "go_slice xs lo hi = take (hi - lo) (drop lo xs)"

section \<open>Powers of two\<close>

fun is_pow2 :: "nat \<Rightarrow> bool" where
  "is_pow2 n = (if n \<le> 1 then n = 1 else even n \<and> is_pow2 (n div 2))"

declare is_pow2.simps [simp del]

section \<open>Decimal numerals\<close>

text \<open>
  \<open>strconv.Itoa\<close> on a non-negative count, and the digit class and value that
  Go's parsers (\<open>time.getnum\<close>, the protocol's length lines) read numbers with.
  A digit is one of the bytes \<open>'0'\<close> to \<open>'9'\<close> (48 to 57).
\<close>

definition digit_char :: "nat \<Rightarrow> char" where
  "digit_char d = ''0123456789'' ! d"

fun show_nat :: "nat \<Rightarrow> string" where
  "show_nat n =
     (if n < 10 then [digit_char n] else show_nat (n div 10) @ [digit_char (n mod 10)])"

declare show_nat.simps [simp del]

definition isDigit :: "char \<Rightarrow> bool" where
  "isDigit c = (let v = (of_char c :: nat) in 48 \<le> v \<and> v \<le> 57)"

definition digit_val :: "char \<Rightarrow> nat" where
  "digit_val c = of_char c - 48"

definition digits_val :: "string \<Rightarrow> nat" where
  "digits_val ds = foldl (\<lambda>n c. 10 * n + digit_val c) 0 ds"

text \<open>\<open>strconv.ParseInt(s, 10, 64)\<close>: an optional sign, at least one digit and nothing
  else, within the range of \<open>int64\<close>.\<close>

definition parse_int :: "string \<Rightarrow> int option" where
  "parse_int s =
     (let signed = (s \<noteq> [] \<and> (hd s = CHR ''-'' \<or> hd s = CHR ''+''));
          ds = (if signed then tl s else s);
          v = int (digits_val ds);
          x = (if s \<noteq> [] \<and> hd s = CHR ''-'' then - v else v)
      in if ds \<noteq> [] \<and> list_all isDigit ds \<and> - (2 ^ 63) \<le> x \<and> x < 2 ^ 63 then Some x else None)"

section \<open>Lemmas on the builtins\<close>

lemma go_copy_fits [simp]:
  "length src \<le> length dst \<Longrightarrow> go_copy dst src = (src @ drop (length src) dst, length src)"
  by (simp add: go_copy_def min_def Let_def)

lemma length_go_copy [simp]: "length (fst (go_copy dst src)) = length dst"
  by (simp add: go_copy_def min_def Let_def)


lemma is_pow2_iff: "is_pow2 n \<longleftrightarrow> (\<exists>k. n = 2 ^ k)"
proof (induction n rule: is_pow2.induct)
  case (1 n)
  show ?case
  proof (cases "n \<le> 1")
    case True
    then consider "n = 0" | "n = 1" by linarith
    then show ?thesis
    proof cases
      case 1
      then show ?thesis by (simp add: is_pow2.simps [of 0])
    next
      case 2
      have "is_pow2 1" by (subst is_pow2.simps) simp
      moreover have "(1::nat) = 2 ^ 0" by simp
      ultimately show ?thesis using 2 by metis
    qed
  next
    case False
    have "(\<exists>k. n = 2 ^ k) \<longleftrightarrow> even n \<and> (\<exists>k. n div 2 = 2 ^ k)"
    proof
      assume "\<exists>k. n = 2 ^ k"
      then obtain k where k: "n = 2 ^ k" by blast
      with False have "k \<noteq> 0" by (cases k) auto
      then obtain j where "k = Suc j" by (cases k) auto
      with k show "even n \<and> (\<exists>k. n div 2 = 2 ^ k)" by auto
    next
      assume "even n \<and> (\<exists>k. n div 2 = 2 ^ k)"
      then obtain k where "even n" "n div 2 = 2 ^ k" by blast
      then have "n = 2 ^ Suc k" by (metis dvd_mult_div_cancel power_Suc)
      then show "\<exists>k. n = 2 ^ k" by blast
    qed
    with False "1" show ?thesis by (simp add: is_pow2.simps [of n])
  qed
qed

lemma is_pow2_pos: "is_pow2 n \<Longrightarrow> 0 < n"
  by (auto simp: is_pow2_iff)

lemma is_pow2_double: "is_pow2 n \<Longrightarrow> is_pow2 (2 * n)"
  by (auto simp: is_pow2_iff intro: exI [of _ "Suc _"])

lemma is_pow2_power [simp]: "is_pow2 (2 ^ k)"
  by (auto simp: is_pow2_iff)

section \<open>Rotations\<close>

text \<open>
  A ring buffer read from its head is a rotation of the backing array: logical
  element \<open>i\<close> is slot \<open>(head + i) mod cap\<close>.  Writing a slot of the array is
  writing a position of the rotation, and moving the head by one rotates once
  more.
\<close>

lemma mod_add_inj:
  fixes L :: nat
  assumes "j < L" "k < L"
  shows "(n + k) mod L = (n + j) mod L \<longleftrightarrow> k = j"
proof
  assume eq: "(n + k) mod L = (n + j) mod L"
  show "k = j"
  proof (cases "j \<le> k")
    case True
    with eq have "L dvd (n + k) - (n + j)" by (simp add: mod_eq_dvd_iff_nat)
    with True assms show ?thesis by (auto dest: dvd_imp_le)
  next
    case False
    with eq [symmetric] have "L dvd (n + j) - (n + k)" by (simp add: mod_eq_dvd_iff_nat)
    with False assms show ?thesis by (auto dest: dvd_imp_le)
  qed
qed simp

lemma rotate_list_update [ring_simps]:
  assumes "j < length xs"
  shows "rotate n (xs[(n + j) mod length xs := v]) = (rotate n xs)[j := v]"
proof (rule nth_equalityI)
  show "length (rotate n (xs[(n + j) mod length xs := v])) = length ((rotate n xs)[j := v])"
    by simp
next
  fix i
  assume "i < length (rotate n (xs[(n + j) mod length xs := v]))"
  then have i: "i < length xs" by simp
  have "(n + i) mod length xs < length xs" using i by (intro mod_less_divisor) auto
  then show "rotate n (xs[(n + j) mod length xs := v]) ! i = (rotate n xs)[j := v] ! i"
    using i assms by (simp add: nth_rotate nth_list_update mod_add_inj)
qed

lemma rotate_mod_Suc [ring_simps]:
  "rotate (Suc h mod length xs) xs = rotate1 (rotate h xs)"
  by (metis rotate_Suc rotate_conv_mod)

lemma rotate_back:
  assumes "0 < length xs" "h < length xs"
  shows "rotate1 (rotate ((h + length xs - 1) mod length xs) xs) = rotate h xs"
proof -
  have "Suc ((h + length xs - 1) mod length xs) mod length xs = h"
  proof (cases h)
    case 0
    with assms show ?thesis by simp
  next
    case (Suc g)
    with assms have "(h + length xs - 1) mod length xs = g" by simp
    with Suc assms show ?thesis by simp
  qed
  then show ?thesis
    by (metis rotate_mod_Suc)
qed

text \<open>Index arithmetic of a ring of length \<open>L\<close>: stepping back from the head, forward
  from the tail, and one position past the last element.\<close>

lemma mod_pred_Suc:
  fixes L :: nat
  assumes "0 < L"
  shows "((h + L - 1) mod L + Suc s) mod L = (h + s) mod L"
proof -
  have "((h + L - 1) mod L + Suc s) mod L = (h + L - 1 + Suc s) mod L"
    by (rule mod_add_left_eq)
  also have "h + L - 1 + Suc s = (h + s) + L" using assms by simp
  finally show ?thesis by simp
qed

lemma mod_Suc_add_pred:
  fixes L :: nat
  assumes "0 < s"
  shows "(Suc h mod L + (s - 1)) mod L = (h + s) mod L"
proof -
  have "(Suc h mod L + (s - 1)) mod L = (Suc h + (s - 1)) mod L"
    by (rule mod_add_left_eq)
  also have "Suc h + (s - 1) = h + s" using assms by simp
  finally show ?thesis .
qed

lemma mod_add_Suc:
  fixes L :: nat
  shows "((h + s) mod L + 1) mod L = (h + Suc s) mod L"
proof -
  have "((h + s) mod L + 1) mod L = (h + s + 1) mod L"
    by (rule mod_add_left_eq)
  then show ?thesis by simp
qed

lemma mod_pred_of_add:
  fixes L :: nat
  assumes "0 < L" "0 < s"
  shows "((h + s) mod L + L - 1) mod L = (h + (s - 1)) mod L"
proof -
  have "(h + s) mod L + L - 1 = (h + s) mod L + (L - 1)" using assms by simp
  then have "((h + s) mod L + L - 1) mod L = (h + s + (L - 1)) mod L"
    by (simp only: mod_add_left_eq)
  also have "h + s + (L - 1) = (h + (s - 1)) + L" using assms by simp
  finally show ?thesis by simp
qed

lemma rotate1_injD: "rotate1 xs = rotate1 ys \<Longrightarrow> xs = ys"
  using inj_rotate1 by (auto dest: injD)


section \<open>Lemmas on decimal numerals\<close>

lemma less_ten_cases:
  "(d::nat) < 10 \<Longrightarrow>
     d = 0 \<or> d = 1 \<or> d = 2 \<or> d = 3 \<or> d = 4 \<or> d = 5 \<or> d = 6 \<or> d = 7 \<or> d = 8 \<or> d = 9"
  by arith

lemma digit_char_val [simp]: "d < 10 \<Longrightarrow> digit_val (digit_char d) = d"
  by (drule less_ten_cases, elim disjE) (simp_all add: digit_val_def digit_char_def)

lemma isDigit_digit_char [simp]: "d < 10 \<Longrightarrow> isDigit (digit_char d)"
  by (drule less_ten_cases, elim disjE) (simp_all add: isDigit_def digit_char_def)

lemma digits_val_single [simp]: "digits_val [c] = digit_val c"
  by (simp add: digits_val_def)

lemma digits_val_snoc [simp]: "digits_val (ds @ [c]) = 10 * digits_val ds + digit_val c"
  by (simp add: digits_val_def)

lemma show_nat_ne [simp]: "show_nat n \<noteq> []"
  by (subst show_nat.simps) simp

lemma show_nat_digits: "\<forall>c\<in>set (show_nat n). isDigit c"
  by (induction n rule: show_nat.induct) (subst show_nat.simps, auto)

lemma digits_val_show_nat [simp]: "digits_val (show_nat n) = n"
  by (induction n rule: show_nat.induct) (subst show_nat.simps, simp)

text \<open>A numeral followed by a non-digit is read back exactly, whatever follows.\<close>

lemma takeWhile_show_nat [simp]:
  "\<not> isDigit c \<Longrightarrow> takeWhile isDigit (show_nat n @ c # r) = show_nat n"
  using show_nat_digits [of n] by simp

lemma dropWhile_show_nat [simp]:
  "\<not> isDigit c \<Longrightarrow> dropWhile isDigit (show_nat n @ c # r) = c # r"
  using show_nat_digits [of n] by simp

lemma show_nat_single: "d < 10 \<Longrightarrow> show_nat d = [digit_char d]"
  by (subst show_nat.simps) simp

end
