(* ===== verification/Capacity.thy ===== *)
theory Capacity
  imports Prelude
begin

text \<open>
  The capacity policy of the list entity (\<open>src/datastore/list.go\<close>): the
  constants \<open>defaultCap\<close> and \<open>maxCap\<close> and \<open>setCap\<close>, which rounds a
  requested length up to a power of two by smearing the highest set bit of
  \<open>n - 1\<close> into every lower position.  Go's \<open>int\<close> is a 64-bit two's complement
  integer, so \<open>setCap\<close> is modelled on \<open>64 word\<close>: \<open>>>\<close> on a signed integer is
  the arithmetic shift \<open>signed_drop_bit\<close>, comparisons read the word with
  \<open>sint\<close>, and \<open>n++\<close> wraps.
\<close>

unbundle bit_operations_syntax

type_synonym go_int = "64 word"

definition defaultCap :: nat where
  "defaultCap = 16"

definition maxCap :: nat where
  "maxCap = 2 ^ 30"

definition setCap :: "go_int \<Rightarrow> go_int" where
  "setCap n0 =
     (if sint n0 \<le> 0 then 1
      else
        let n = n0 - 1;
            n = n OR signed_drop_bit 1 n;
            n = n OR signed_drop_bit 2 n;
            n = n OR signed_drop_bit 4 n;
            n = n OR signed_drop_bit 8 n;
            n = n OR signed_drop_bit 16 n;
            n = n + 1
        in if sint n > int maxCap then word_of_nat maxCap else n)"

text \<open>One step of the bit smearing in \<open>setCap\<close>: \<open>n |= n >> d\<close>.\<close>

definition smear :: "nat \<Rightarrow> go_int \<Rightarrow> go_int" where
  "smear d n = n OR signed_drop_bit d n"

lemma maxCap_pow2 [simp]: "is_pow2 maxCap"
  unfolding maxCap_def by (rule is_pow2_power)

lemma defaultCap_pow2 [simp]: "is_pow2 defaultCap"
proof -
  have "defaultCap = 2 ^ 4" by (simp add: defaultCap_def)
  then show ?thesis by (subst \<open>defaultCap = 2 ^ 4\<close>) (rule is_pow2_power)
qed

lemma defaultCap_pos [simp]: "0 < defaultCap"
  by (simp add: defaultCap_def)

lemma maxCap_pos: "0 < maxCap"
  by (simp add: maxCap_def)

lemma defaultCap_le_maxCap [simp]: "defaultCap \<le> maxCap"
  by (simp add: defaultCap_def maxCap_def)

section \<open>The bit smearing\<close>

lemma setCap_smear:
  "setCap n0 =
     (if sint n0 \<le> 0 then 1
      else let n = smear 16 (smear 8 (smear 4 (smear 2 (smear 1 (n0 - 1))))) + 1
           in if sint n > int maxCap then word_of_nat maxCap else n)"
  by (simp add: setCap_def smear_def Let_def)

lemma bit_go_int_high: "64 \<le> j \<Longrightarrow> \<not> bit (w :: go_int) j"
  using bit_imp_le_length [of w j] by auto

lemma bit_smear:
  fixes x s :: go_int
  assumes S: "\<forall>j. bit s j \<longleftrightarrow> (\<exists>i<d. bit x (j + i))" and top: "\<not> bit x 63"
  shows "\<forall>j. bit (smear d s) j \<longleftrightarrow> (\<exists>i<2 * d. bit x (j + i))"
proof
  fix j
  have s63: "\<not> bit s 63"
  proof
    assume "bit s 63"
    with S obtain i where "i < d" "bit x (63 + i)" by auto
    with top bit_go_int_high [of "63 + i" x] show False by (cases i) auto
  qed
  have sdb: "bit (signed_drop_bit d s) j \<longleftrightarrow> bit s (d + j)"
  proof (cases "64 \<le> d + j")
    case True
    then show ?thesis using s63 bit_go_int_high [of "d + j" s]
      by (auto simp: bit_signed_drop_bit_iff)
  next
    case False
    then have "\<not> 64 - d \<le> j" by arith
    then show ?thesis by (simp add: bit_signed_drop_bit_iff)
  qed
  have "(\<exists>i<d. bit x (j + i)) \<or> (\<exists>i<d. bit x (j + (d + i))) \<longleftrightarrow> (\<exists>i<2 * d. bit x (j + i))"
  proof
    assume "\<exists>i<2 * d. bit x (j + i)"
    then obtain i where i: "i < 2 * d" "bit x (j + i)" by blast
    show "(\<exists>i<d. bit x (j + i)) \<or> (\<exists>i<d. bit x (j + (d + i)))"
    proof (cases "i < d")
      case True
      with i show ?thesis by blast
    next
      case False
      then have "j + i = j + (d + (i - d))" "i - d < d" using i(1) by auto
      with i(2) show ?thesis by metis
    qed
  next
    assume "(\<exists>i<d. bit x (j + i)) \<or> (\<exists>i<d. bit x (j + (d + i)))"
    then show "\<exists>i<2 * d. bit x (j + i)"
    proof
      assume "\<exists>i<d. bit x (j + i)"
      then obtain i where "i < d" "bit x (j + i)" by blast
      then show ?thesis by (intro exI [of _ i]) auto
    next
      assume "\<exists>i<d. bit x (j + (d + i))"
      then obtain i where "i < d" "bit x (j + (d + i))" by blast
      then show ?thesis by (intro exI [of _ "d + i"]) auto
    qed
  qed
  then show "bit (smear d s) j \<longleftrightarrow> (\<exists>i<2 * d. bit x (j + i))"
    using S sdb by (simp add: smear_def bit_or_iff add.assoc add.left_commute)
qed


lemma smear_all:
  fixes x :: go_int
  assumes top: "\<not> bit x 63"
  shows "\<forall>j. bit (smear 16 (smear 8 (smear 4 (smear 2 (smear 1 x))))) j \<longleftrightarrow> (\<exists>i<32. bit x (j + i))"
proof -
  have S1: "\<forall>j. bit x j \<longleftrightarrow> (\<exists>i<1. bit x (j + i))" by simp
  have S2: "\<forall>j. bit (smear 1 x) j \<longleftrightarrow> (\<exists>i<2. bit x (j + i))"
    using bit_smear [OF S1 top] by simp
  have S4: "\<forall>j. bit (smear 2 (smear 1 x)) j \<longleftrightarrow> (\<exists>i<4. bit x (j + i))"
    using bit_smear [OF S2 top] by simp
  have S8: "\<forall>j. bit (smear 4 (smear 2 (smear 1 x))) j \<longleftrightarrow> (\<exists>i<8. bit x (j + i))"
    using bit_smear [OF S4 top] by simp
  have S16: "\<forall>j. bit (smear 8 (smear 4 (smear 2 (smear 1 x)))) j \<longleftrightarrow> (\<exists>i<16. bit x (j + i))"
    using bit_smear [OF S8 top] by simp
  show ?thesis
    using bit_smear [OF S16 top] by simp
qed

lemma nat_bit_length:
  fixes y :: nat
  assumes "y < 2 ^ b"
  obtains k where "k \<le> b" "y < 2 ^ k" "\<forall>j\<ge>k. \<not> bit y j" "0 < k \<Longrightarrow> 2 ^ (k - 1) \<le> y"
    "0 < k \<Longrightarrow> bit y (k - 1)"
proof -
  define k where "k = (LEAST k. y < 2 ^ k)"
  have lt: "y < 2 ^ k" unfolding k_def by (rule LeastI [of _ b]) (rule assms)
  have le: "k \<le> b" unfolding k_def by (rule Least_le) (rule assms)
  have hi: "\<forall>j\<ge>k. \<not> bit y j"
  proof (intro allI impI)
    fix j assume "k \<le> j"
    then have "y < 2 ^ j" using lt by (meson less_le_trans one_le_numeral power_increasing)
    then show "\<not> bit y j" by (simp add: bit_iff_odd)
  qed
  have lo: "2 ^ (k - 1) \<le> y" if "0 < k"
  proof -
    have "k - 1 < k" using that by simp
    then have "\<not> y < 2 ^ (k - 1)" unfolding k_def by (rule not_less_Least)
    then show ?thesis by simp
  qed
  have top: "bit y (k - 1)" if "0 < k"
  proof -
    have k2: "(2::nat) ^ k = 2 * 2 ^ (k - 1)" using that by (cases k) auto
    have "y div 2 ^ (k - 1) = 1"
      using lo [OF that] lt k2 by (intro div_nat_eqI) auto
    then show ?thesis by (simp add: bit_iff_odd)
  qed
  show ?thesis using le lt hi lo top that by blast
qed

lemma sint_pow2:
  assumes "k \<le> 30"
  shows "sint (2 ^ k :: go_int) = 2 ^ k"
proof -
  have pow: "(2 ^ k :: go_int) = word_of_nat (2 ^ k)" by simp
  have "(2::int) ^ k \<le> 2 ^ 30" using power_increasing [OF assms, of "2::int"] by simp
  then have b: "(2::int) ^ k < 2 ^ 63" by simp
  have a: "- (2 ^ 63) \<le> (2::int) ^ k" by (rule order_trans [of _ 0]) simp_all
  from a b have "signed_take_bit 63 ((2::int) ^ k) = 2 ^ k"
    by (rule signed_take_bit_int_eq_self)
  then show ?thesis
    by (simp only: pow signed_of_nat) simp
qed

lemma setCap_pow2:
  assumes "1 \<le> m" "m \<le> maxCap"
  shows "\<exists>k\<le>30. setCap (word_of_nat m) = 2 ^ k \<and> m \<le> 2 ^ k \<and> 2 ^ k < 2 * m"
proof -
  have m63: "int m < 2 ^ 63" using assms by (simp add: maxCap_def)
  have s0: "sint (word_of_nat m :: go_int) = int m"
    using m63 by (simp add: signed_of_nat signed_take_bit_int_eq_self)
  define y where "y = m - 1"
  have y: "y < 2 ^ 30" using assms by (simp add: y_def maxCap_def)
  have x: "(word_of_nat m :: go_int) - 1 = word_of_nat y"
    using assms by (simp add: y_def of_nat_diff)
  have bx: "bit (word_of_nat y :: go_int) j \<longleftrightarrow> j < 64 \<and> bit y j" for j
    by (auto simp: bit_simps)
  obtain k where k: "k \<le> 30" "y < 2 ^ k" "\<forall>j\<ge>k. \<not> bit y j"
      "0 < k \<Longrightarrow> 2 ^ (k - 1) \<le> y" "0 < k \<Longrightarrow> bit y (k - 1)"
    using nat_bit_length [OF y] by blast
  have top: "\<not> bit (word_of_nat y :: go_int) 63" using bx k(1,3) by simp
  note S = smear_all [OF top]
  have mask: "smear 16 (smear 8 (smear 4 (smear 2 (smear 1 (word_of_nat y :: go_int))))) = mask k"
  proof (rule bit_word_eqI)
    fix j
    assume j: "j < LENGTH(64)"
    have "(\<exists>i<32. bit (word_of_nat y :: go_int) (j + i)) \<longleftrightarrow> j < k"
    proof
      assume "\<exists>i<32. bit (word_of_nat y :: go_int) (j + i)"
      then obtain i where "bit y (j + i)" using bx by blast
      with k(3) show "j < k" by (meson le_add1 le_trans not_le)
    next
      assume jk: "j < k"
      then have "bit y (j + (k - 1 - j))" using k(5) by simp
      moreover have "k - 1 - j < 32" "j + (k - 1 - j) < 64" using jk k(1) by auto
      ultimately show "\<exists>i<32. bit (word_of_nat y :: go_int) (j + i)" using bx by blast
    qed
    then show "bit (smear 16 (smear 8 (smear 4 (smear 2 (smear 1 (word_of_nat y :: go_int)))))) j \<longleftrightarrow>
               bit (mask k :: go_int) j"
      using S j by (simp add: bit_mask_iff)
  qed
  have s2k: "sint (2 ^ k :: go_int) = 2 ^ k" using k(1) by (rule sint_pow2)
  have "(2::int) ^ k \<le> 2 ^ 30" using power_increasing [OF k(1), of "2::int"] by simp
  then have small: "\<not> sint (2 ^ k :: go_int) > int maxCap" using s2k by (simp add: maxCap_def)
  have m1: "mask k + 1 = (2 ^ k :: go_int)" by (simp add: mask_eq_decr_exp)
  have r: "setCap (word_of_nat m) = 2 ^ k"
    unfolding setCap_smear x mask m1 Let_def using small s0 assms(1) by simp
  have "m \<le> 2 ^ k" using k(2) assms(1) by (simp add: y_def)
  moreover have "2 ^ k < 2 * m"
  proof (cases k)
    case 0
    with assms show ?thesis by simp
  next
    case (Suc j)
    with k(4) have "2 ^ j \<le> y" by simp
    with Suc assms(1) show ?thesis by (simp add: y_def)
  qed
  ultimately show ?thesis using r k(1) by blast
qed

section \<open>Properties of the capacity policy\<close>


end
