(* ===== verification/ListEntity.thy ===== *)
theory ListEntity
  imports Prelude Capacity
begin

text \<open>
  The list entity of \<open>src/datastore/list.go\<close>: a double-ended queue kept in a
  ring buffer.  \<open>listEntity\<close> is the record \<open>list_entity\<close>; each method is one
  definition of the same name (\<open>Range\<close> is \<open>ListRange\<close>, as \<open>Range\<close> is taken
  in HOL), each loop of \<open>LPop\<close>/\<open>RPop\<close> a recursive function on the count.
  Go \<open>int\<close> fields that the code keeps non-negative (\<open>head\<close>, \<open>tail\<close>,
  \<open>size\<close>, \<open>cap\<close>) are \<open>nat\<close>; \<open>(l.head - 1 + l.cap) % l.cap\<close> is written
  \<open>(head + cap - 1) mod cap\<close>, which is the same value whenever \<open>cap > 0\<close>.
  The counts and indices of the exported methods are Go \<open>int64\<close>, modelled as
  \<open>int\<close> (no arithmetic on them can overflow at the sizes involved).

  The abstraction \<open>list_of\<close> reads the logical deque off the buffer (the
  rotation of the array that starts at \<open>head\<close>, cut at \<open>size\<close>) and
  \<open>ring_inv\<close> is the representation invariant of the spec, with the cleared
  (\<open>nil\<close>) vacated slots included.
\<close>

section \<open>State\<close>

record list_entity =
  key :: bytes
  buffer :: "byteslice list"
  head :: nat
  tail :: nat
  size_l :: nat
  cap :: nat

text \<open>\<open>database.CmdTypeRPush\<close>, the command name \<open>ToCmd\<close> emits.\<close>

definition CmdTypeRPush :: bytes where
  "CmdTypeRPush = ''rpush''"

section \<open>Operations\<close>

definition newListEntity :: "bytes \<Rightarrow> byteslice list \<Rightarrow> go_error + list_entity" where
  "newListEntity k elements =
     (let c = (if length elements > defaultCap
               then sint (setCap (word_of_nat (length elements)))
               else int defaultCap)
      in if c < 0 then Inl MakeLenOutOfRange
         else Inr \<lparr>key = k,
                   buffer = fst (go_copy (replicate (nat c) None) elements),
                   head = 0, tail = length elements, size_l = length elements,
                   cap = nat c\<rparr>)"

definition grow :: "list_entity \<Rightarrow> list_entity" where
  "grow l =
     (let newCap = (if cap l * 2 > maxCap then maxCap else cap l * 2)
      in if newCap = cap l then l
         else
           let newBuffer0 = replicate newCap None;
               newBuffer =
                 (if tail l > head l
                  then fst (go_copy newBuffer0 (go_slice (buffer l) (head l) (tail l)))
                  else if size_l l > 0
                  then (let (nb, n) = go_copy newBuffer0 (drop (head l) (buffer l))
                        in take n nb @ fst (go_copy (drop n nb) (take (tail l) (buffer l))))
                  else newBuffer0)
           in l\<lparr>buffer := newBuffer, head := 0, tail := size_l l, cap := newCap\<rparr>)"

definition LPush :: "byteslice \<Rightarrow> list_entity \<Rightarrow> list_entity" where
  "LPush value l0 =
     (let l = (if size_l l0 = cap l0 then grow l0 else l0);
          h = (head l + cap l - 1) mod cap l
      in l\<lparr>head := h, buffer := (buffer l)[h := value], size_l := size_l l + 1\<rparr>)"

fun lpop_loop :: "nat \<Rightarrow> list_entity \<Rightarrow> byteslice list \<times> list_entity" where
  "lpop_loop 0 l = ([], l)"
| "lpop_loop (Suc i) l =
     (let x = buffer l ! head l;
          l' = l\<lparr>buffer := (buffer l)[head l := None],
                 head := (head l + 1) mod cap l,
                 size_l := size_l l - 1\<rparr>;
          (xs, l'') = lpop_loop i l'
      in (x # xs, l''))"

definition LPop :: "int \<Rightarrow> list_entity \<Rightarrow> go_error + byteslice list option \<times> list_entity" where
  "LPop cnt l =
     (if int (size_l l) < cnt then Inr (None, l)
      else if cnt < 0 then Inl MakeLenOutOfRange
      else let (res, l') = lpop_loop (nat cnt) l in Inr (Some res, l'))"

definition RPush :: "byteslice \<Rightarrow> list_entity \<Rightarrow> list_entity" where
  "RPush value l0 =
     (let l = (if size_l l0 = cap l0 then grow l0 else l0)
      in l\<lparr>buffer := (buffer l)[tail l := value],
           tail := (tail l + 1) mod cap l,
           size_l := size_l l + 1\<rparr>)"

fun rpop_loop :: "nat \<Rightarrow> list_entity \<Rightarrow> byteslice list \<times> list_entity" where
  "rpop_loop 0 l = ([], l)"
| "rpop_loop (Suc i) l =
     (let t = (tail l + cap l - 1) mod cap l;
          x = buffer l ! t;
          l' = l\<lparr>tail := t, buffer := (buffer l)[t := None], size_l := size_l l - 1\<rparr>;
          (xs, l'') = rpop_loop i l'
      in (xs @ [x], l''))"

definition RPop :: "int \<Rightarrow> list_entity \<Rightarrow> go_error + byteslice list option \<times> list_entity" where
  "RPop cnt l =
     (if int (size_l l) < cnt then Inr (None, l)
      else if cnt < 0 then Inl MakeLenOutOfRange
      else let (res, l') = rpop_loop (nat cnt) l in Inr (Some res, l'))"

definition Len :: "list_entity \<Rightarrow> int" where
  "Len l = int (size_l l)"

definition get :: "list_entity \<Rightarrow> int \<Rightarrow> byteslice" where
  "get l idx =
     (if idx < 0 \<or> idx \<ge> int (size_l l) then None
      else buffer l ! ((head l + nat idx) mod cap l))"

definition ListRange :: "int \<Rightarrow> int \<Rightarrow> list_entity \<Rightarrow> byteslice list option" where
  "ListRange start stop0 l =
     (if size_l l = 0 then None
      else
        let stop = (if stop0 = -1 then int (size_l l) - 1 else stop0)
        in if start < 0 \<or> start \<ge> int (size_l l) then None
           else if stop < 0 \<or> stop \<ge> int (size_l l) \<or> stop < start then None
           else Some (map (\<lambda>i. get l (start + int i)) [0..<nat (stop - start + 1)]))"

definition ToCmd :: "list_entity \<Rightarrow> byteslice list" where
  "ToCmd l = [Some CmdTypeRPush, Some (key l)] @ map (\<lambda>i. get l (int i)) [0..<size_l l]"

section \<open>Abstraction and invariant\<close>

definition list_of :: "list_entity \<Rightarrow> byteslice list" where
  "list_of l = take (size_l l) (rotate (head l) (buffer l))"

definition ring_inv :: "list_entity \<Rightarrow> bool" where
  "ring_inv l \<longleftrightarrow>
     cap l = length (buffer l) \<and> is_pow2 (cap l) \<and> cap l \<le> maxCap \<and>
     size_l l \<le> cap l \<and> head l < cap l \<and>
     tail l = (head l + size_l l) mod cap l \<and>
     drop (size_l l) (rotate (head l) (buffer l)) = replicate (cap l - size_l l) None"

section \<open>The deque contract\<close>

text \<open>
  What the list entity promises (spec, section 4.1), on the plain list of its
  elements: pushes add at either end; a pop of \<open>n\<close> elements is all or
  nothing and returns them left to right; a negative count is the panic of
  \<open>make\<close>.  \<open>list_step\<close> dispatches an operation to the methods of the
  \<open>List\<close> interface the store calls, and the two \<open>run\<close> functions apply a
  sequence of operations, stopping at the first panic.
\<close>

datatype deque_op = LPushOp byteslice | RPushOp byteslice | LPopOp int | RPopOp int

fun deque_step :: "deque_op \<Rightarrow> byteslice list \<Rightarrow> go_error + byteslice list option \<times> byteslice list" where
  "deque_step (LPushOp v) xs = Inr (None, v # xs)"
| "deque_step (RPushOp v) xs = Inr (None, xs @ [v])"
| "deque_step (LPopOp n) xs =
     (if int (length xs) < n then Inr (None, xs)
      else if n < 0 then Inl MakeLenOutOfRange
      else Inr (Some (take (nat n) xs), drop (nat n) xs))"
| "deque_step (RPopOp n) xs =
     (if int (length xs) < n then Inr (None, xs)
      else if n < 0 then Inl MakeLenOutOfRange
      else Inr (Some (drop (length xs - nat n) xs), take (length xs - nat n) xs))"

fun list_step :: "deque_op \<Rightarrow> list_entity \<Rightarrow> go_error + byteslice list option \<times> list_entity" where
  "list_step (LPushOp v) l = Inr (None, LPush v l)"
| "list_step (RPushOp v) l = Inr (None, RPush v l)"
| "list_step (LPopOp n) l = LPop n l"
| "list_step (RPopOp n) l = RPop n l"

fun is_push :: "deque_op \<Rightarrow> bool" where
  "is_push (LPushOp _) = True"
| "is_push (RPushOp _) = True"
| "is_push _ = False"

fun list_run :: "deque_op list \<Rightarrow> list_entity \<Rightarrow> go_error + list_entity" where
  "list_run [] l = Inr l"
| "list_run (op # ops) l = (case list_step op l of Inl e \<Rightarrow> Inl e | Inr (_, l') \<Rightarrow> list_run ops l')"

fun deque_run :: "deque_op list \<Rightarrow> byteslice list \<Rightarrow> go_error + byteslice list" where
  "deque_run [] xs = Inr xs"
| "deque_run (op # ops) xs = (case deque_step op xs of Inl e \<Rightarrow> Inl e | Inr (_, ys) \<Rightarrow> deque_run ops ys)"

text \<open>The contract of \<open>Range(start, stop)\<close> on the deque's element sequence.\<close>

definition range_spec :: "int \<Rightarrow> int \<Rightarrow> byteslice list \<Rightarrow> byteslice list option" where
  "range_spec start stop xs =
     (let n = int (length xs); e = (if stop = -1 then n - 1 else stop)
      in if n = 0 \<or> start < 0 \<or> n \<le> start \<or> e < 0 \<or> n \<le> e \<or> e < start then None
         else Some (take (nat (e - start + 1)) (drop (nat start) xs)))"

section \<open>Reading the ring\<close>

lemma ring_invD:
  assumes "ring_inv l"
  shows "cap l = length (buffer l)" "0 < cap l" "is_pow2 (cap l)" "cap l \<le> maxCap"
    "size_l l \<le> cap l" "head l < cap l" "tail l = (head l + size_l l) mod cap l"
  using assms by (auto simp: ring_inv_def is_pow2_pos)

lemma ring_view:
  assumes "ring_inv l"
  shows "rotate (head l) (buffer l) = list_of l @ replicate (cap l - size_l l) None"
proof -
  have "drop (size_l l) (rotate (head l) (buffer l)) = replicate (cap l - size_l l) None"
    using assms by (simp add: ring_inv_def)
  then show ?thesis by (metis append_take_drop_id list_of_def)
qed

lemma length_list_of:
  assumes "ring_inv l"
  shows "length (list_of l) = size_l l"
  using assms by (auto simp: list_of_def ring_inv_def min_def)

lemma ring_invI:
  assumes "cap l = length (buffer l)" "is_pow2 (cap l)" "cap l \<le> maxCap" "head l < cap l"
    and "tail l = (head l + size_l l) mod cap l"
    and rot: "rotate (head l) (buffer l) = xs @ replicate (cap l - size_l l) None"
    and len: "length xs = size_l l"
  shows "ring_inv l \<and> list_of l = xs"
proof -
  have "length (rotate (head l) (buffer l)) = cap l" using assms(1) by simp
  with rot len have le: "size_l l \<le> cap l" by simp
  have "list_of l = xs" using rot len by (simp add: list_of_def)
  moreover have "drop (size_l l) (rotate (head l) (buffer l)) = replicate (cap l - size_l l) None"
    using rot len by simp
  ultimately show ?thesis using assms le by (simp add: ring_inv_def)
qed

lemma get_list_of:
  assumes "ring_inv l" "0 \<le> i" "i < int (size_l l)"
  shows "get l i = list_of l ! nat i"
proof -
  have i: "nat i < size_l l" using assms(2,3) by simp
  then have "nat i < length (buffer l)" using ring_invD [OF assms(1)] by simp
  then have "rotate (head l) (buffer l) ! nat i = buffer l ! ((head l + nat i) mod cap l)"
    using ring_invD(1) [OF assms(1)] by (simp add: nth_rotate)
  with i assms show ?thesis by (simp add: get_def list_of_def)
qed

lemma map_get_list_of:
  assumes "ring_inv l"
  shows "map (\<lambda>i. get l (int i)) [0..<size_l l] = list_of l"
  by (rule nth_equalityI) (simp_all add: assms length_list_of get_list_of)


section \<open>Growth\<close>

text \<open>The three copy branches of \<open>grow\<close> all lay the elements out from slot 0.\<close>

lemma grow_copy:
  assumes inv: "ring_inv l" and N: "cap l \<le> N"
  shows "(if tail l > head l
          then fst (go_copy (replicate N None) (go_slice (buffer l) (head l) (tail l)))
          else if size_l l > 0
          then (let (nb, n) = go_copy (replicate N None) (drop (head l) (buffer l))
                in take n nb @ fst (go_copy (drop n nb) (take (tail l) (buffer l))))
          else replicate N None)
         = list_of l @ replicate (N - size_l l) None"
proof -
  note facts = ring_invD [OF inv]
  let ?b = "buffer l" and ?h = "head l" and ?s = "size_l l" and ?c = "cap l"
  have rot: "rotate ?h ?b = drop ?h ?b @ take ?h ?b"
    using facts by (simp add: rotate_drop_take)
  have lo: "list_of l = take ?s (drop ?h ?b @ take ?h ?b)"
    by (simp add: list_of_def rot)
  consider (A) "tail l > ?h" | (B) "\<not> tail l > ?h" "?s > 0" | (C) "\<not> tail l > ?h" "?s = 0"
    by blast
  then show ?thesis
  proof cases
    case A
    have "?h + ?s < ?c"
    proof (rule ccontr)
      assume "\<not> ?h + ?s < ?c"
      then have "tail l = ?h + ?s - ?c" using facts by (simp add: mod_if)
      with A facts show False by simp
    qed
    then have t: "tail l = ?h + ?s" using facts by simp
    have sl: "go_slice ?b ?h (tail l) = take ?s (drop ?h ?b)"
      by (simp add: go_slice_def t)
    have "list_of l = take ?s (drop ?h ?b)"
      using \<open>?h + ?s < ?c\<close> facts by (simp add: lo)
    with A sl facts N \<open>?h + ?s < ?c\<close> show ?thesis by simp
  next
    case B
    have big: "?c \<le> ?h + ?s"
    proof (rule ccontr)
      assume "\<not> ?c \<le> ?h + ?s"
      then have "tail l = ?h + ?s" using facts by simp
      with B show False by simp
    qed
    then have t: "tail l = ?h + ?s - ?c" using facts by (simp add: mod_if)
    have c1: "go_copy (replicate N None) (drop ?h ?b) =
                (drop ?h ?b @ replicate (N - (?c - ?h)) None, ?c - ?h)"
      using facts N by simp
    have c2: "go_copy (replicate (N - (?c - ?h)) None) (take (tail l) ?b) =
                (take (tail l) ?b @ replicate (N - ?s) None, tail l)"
      using facts N big t by simp
    have "take ?s (drop ?h ?b @ take ?h ?b) = drop ?h ?b @ take (?h + ?s - ?c) ?b"
      using facts big by (simp add: min_def add.commute)
    then have "list_of l = drop ?h ?b @ take (tail l) ?b"
      by (simp only: lo t)
    with B c1 c2 facts show ?thesis by simp
  next
    case C
    then show ?thesis by (simp add: list_of_def)
  qed
qed

lemma grow_ring:
  assumes inv: "ring_inv l"
  shows "ring_inv (grow l) \<and> list_of (grow l) = list_of l"
    and "cap (grow l) = min (2 * cap l) maxCap"
    and "size_l (grow l) = size_l l" "key (grow l) = key l"
proof -
  note facts = ring_invD [OF inv]
  let ?N = "if cap l * 2 > maxCap then maxCap else cap l * 2"
  have "is_pow2 (cap l * 2)"
    using is_pow2_double [OF facts(3)] by (simp add: mult.commute)
  then have N: "cap l \<le> ?N" "?N \<le> maxCap" "is_pow2 ?N"
    using facts by auto
  have min: "min (2 * cap l) maxCap = ?N" by auto
  show "ring_inv (grow l) \<and> list_of (grow l) = list_of l" "cap (grow l) = min (2 * cap l) maxCap"
  proof -
    show "ring_inv (grow l) \<and> list_of (grow l) = list_of l"
    proof (cases "?N = cap l")
      case True
      then show ?thesis using inv by (simp add: grow_def)
    next
      case False
      with N have lt: "size_l l < ?N" using facts by simp
      have "grow l = l\<lparr>buffer := list_of l @ replicate (?N - size_l l) None, head := 0,
                        tail := size_l l, cap := ?N\<rparr>"
        using False grow_copy [OF inv N(1)] by (simp add: grow_def Let_def)
      moreover have "ring_inv (l\<lparr>buffer := list_of l @ replicate (?N - size_l l) None, head := 0,
                        tail := size_l l, cap := ?N\<rparr>) \<and>
                     list_of (l\<lparr>buffer := list_of l @ replicate (?N - size_l l) None, head := 0,
                        tail := size_l l, cap := ?N\<rparr>) = list_of l"
        by (rule ring_invI) (use N lt facts in \<open>simp_all add: length_list_of [OF inv]\<close>)
      ultimately show ?thesis by simp
    qed
    show "cap (grow l) = min (2 * cap l) maxCap"
      by (simp add: grow_def Let_def min)
  qed
  show "size_l (grow l) = size_l l" "key (grow l) = key l"
    by (simp_all add: grow_def Let_def)
qed


section \<open>One step at either end\<close>

lemma ring_view_room:
  assumes inv: "ring_inv l" and room: "size_l l < cap l"
  shows "rotate (head l) (buffer l) = list_of l @ None # replicate (cap l - Suc (size_l l)) None"
proof -
  have "cap l - size_l l = Suc (cap l - Suc (size_l l))" using room by simp
  then show ?thesis using ring_view [OF inv] by simp
qed

lemma push_left_room:
  assumes inv: "ring_inv l" and room: "size_l l < cap l"
  defines "h \<equiv> (head l + cap l - 1) mod cap l"
  shows "ring_inv (l\<lparr>head := h, buffer := (buffer l)[h := v], size_l := size_l l + 1\<rparr>) \<and>
         list_of (l\<lparr>head := h, buffer := (buffer l)[h := v], size_l := size_l l + 1\<rparr>) = v # list_of l"
proof -
  note facts = ring_invD [OF inv]
  let ?xs = "list_of l" and ?k = "cap l - Suc (size_l l)"
  have hL: "h < cap l" using facts by (simp add: h_def)
  have rb: "rotate1 (rotate h (buffer l)) = rotate (head l) (buffer l)"
    using rotate_back [of "buffer l" "head l"] facts by (simp add: h_def)
  have "rotate1 (None # ?xs @ replicate ?k None) = rotate (head l) (buffer l)"
    using ring_view_room [OF inv room] by (simp add: replicate_append_same)
  with rb have Q: "rotate h (buffer l) = None # ?xs @ replicate ?k None"
    by (metis rotate1_injD)
  have "rotate h ((buffer l)[h := v]) = (rotate h (buffer l))[0 := v]"
    using rotate_list_update [of 0 "buffer l" h v] facts hL by simp
  with Q room have rot: "rotate h ((buffer l)[h := v]) = (v # ?xs) @ replicate (cap l - (size_l l + 1)) None"
    by simp
  have t: "tail l = (h + (size_l l + 1)) mod cap l"
    using mod_pred_Suc [of "cap l" "head l" "size_l l"] facts by (simp add: h_def)
  show ?thesis
    by (rule ring_invI) (use facts hL rot t in \<open>simp_all add: length_list_of [OF inv]\<close>)
qed

lemma push_right_room:
  assumes inv: "ring_inv l" and room: "size_l l < cap l"
  shows "ring_inv (l\<lparr>buffer := (buffer l)[tail l := v], tail := (tail l + 1) mod cap l,
                      size_l := size_l l + 1\<rparr>) \<and>
         list_of (l\<lparr>buffer := (buffer l)[tail l := v], tail := (tail l + 1) mod cap l,
                      size_l := size_l l + 1\<rparr>) = list_of l @ [v]"
proof -
  note facts = ring_invD [OF inv]
  let ?xs = "list_of l" and ?k = "cap l - Suc (size_l l)"
  have "rotate (head l) ((buffer l)[tail l := v]) = (rotate (head l) (buffer l))[size_l l := v]"
    using rotate_list_update [of "size_l l" "buffer l" "head l" v] facts room by simp
  with ring_view_room [OF inv room]
  have rot: "rotate (head l) ((buffer l)[tail l := v]) =
               (?xs @ [v]) @ replicate (cap l - (size_l l + 1)) None"
    by (simp add: list_update_append length_list_of [OF inv])
  have t: "(tail l + 1) mod cap l = (head l + (size_l l + 1)) mod cap l"
    using mod_add_Suc [of "head l" "size_l l" "cap l"] facts by simp
  show ?thesis
    by (rule ring_invI) (use facts rot t in \<open>simp_all add: length_list_of [OF inv]\<close>)
qed

lemma pop_left_step:
  assumes inv: "ring_inv l" and ne: "0 < size_l l"
  shows "buffer l ! head l = hd (list_of l)"
    and "ring_inv (l\<lparr>buffer := (buffer l)[head l := None], head := (head l + 1) mod cap l,
                     size_l := size_l l - 1\<rparr>) \<and>
         list_of (l\<lparr>buffer := (buffer l)[head l := None], head := (head l + 1) mod cap l,
                     size_l := size_l l - 1\<rparr>) = tl (list_of l)"
proof -
  note facts = ring_invD [OF inv]
  obtain x xs where xs: "list_of l = x # xs"
    using ne length_list_of [OF inv] by (cases "list_of l") auto
  let ?r = "replicate (cap l - size_l l) None"
  have R: "rotate (head l) (buffer l) = (x # xs) @ ?r" using ring_view [OF inv] xs by simp
  have "rotate (head l) (buffer l) ! 0 = buffer l ! head l"
    using facts by (simp add: nth_rotate)
  with R xs show "buffer l ! head l = hd (list_of l)" by simp
  have "rotate (head l) ((buffer l)[head l := None]) = (rotate (head l) (buffer l))[0 := None]"
    using rotate_list_update [of 0 "buffer l" "head l" None] facts by simp
  with R have "rotate (head l) ((buffer l)[head l := None]) = None # xs @ ?r" by simp
  then have "rotate (Suc (head l) mod length ((buffer l)[head l := None])) ((buffer l)[head l := None])
               = xs @ ?r @ [None]"
    by (simp only: rotate_mod_Suc) simp
  then have rot: "rotate ((head l + 1) mod cap l) ((buffer l)[head l := None])
                    = xs @ replicate (cap l - (size_l l - 1)) None"
    using facts ne by (simp add: replicate_append_same Suc_diff_le)
  have t: "tail l = ((head l + 1) mod cap l + (size_l l - 1)) mod cap l"
    using mod_Suc_add_pred [OF ne, of "head l" "cap l"] facts by simp
  have len: "length xs = size_l l - 1" using xs length_list_of [OF inv] by simp
  show "ring_inv (l\<lparr>buffer := (buffer l)[head l := None], head := (head l + 1) mod cap l,
                     size_l := size_l l - 1\<rparr>) \<and>
         list_of (l\<lparr>buffer := (buffer l)[head l := None], head := (head l + 1) mod cap l,
                     size_l := size_l l - 1\<rparr>) = tl (list_of l)"
    using ring_invI [where xs = xs] facts rot t len xs by simp
qed

lemma pop_right_step:
  assumes inv: "ring_inv l" and ne: "0 < size_l l"
  defines "t \<equiv> (tail l + cap l - 1) mod cap l"
  shows "buffer l ! t = last (list_of l)"
    and "ring_inv (l\<lparr>tail := t, buffer := (buffer l)[t := None], size_l := size_l l - 1\<rparr>) \<and>
         list_of (l\<lparr>tail := t, buffer := (buffer l)[t := None], size_l := size_l l - 1\<rparr>)
           = butlast (list_of l)"
proof -
  note facts = ring_invD [OF inv]
  obtain ys y where xs: "list_of l = ys @ [y]"
    using ne length_list_of [OF inv] by (cases "list_of l" rule: rev_cases) auto
  have len: "length ys = size_l l - 1" using xs length_list_of [OF inv] by simp
  let ?r = "replicate (cap l - size_l l) None"
  have tt: "t = (head l + (size_l l - 1)) mod cap l"
    using mod_pred_of_add [of "cap l" "size_l l" "head l"] facts ne by (simp add: t_def)
  have R: "rotate (head l) (buffer l) = ys @ y # ?r" using ring_view [OF inv] xs by simp
  have "size_l l - 1 < length (buffer l)" using facts ne by simp
  then have "rotate (head l) (buffer l) ! (size_l l - 1) = buffer l ! t"
    using facts by (simp add: nth_rotate tt)
  with R len xs show "buffer l ! t = last (list_of l)" by (simp add: nth_append)
  have "rotate (head l) ((buffer l)[t := None]) = (rotate (head l) (buffer l))[size_l l - 1 := None]"
    using rotate_list_update [of "size_l l - 1" "buffer l" "head l" None] facts ne by (simp add: tt)
  with R len have rot: "rotate (head l) ((buffer l)[t := None])
                         = ys @ replicate (cap l - (size_l l - 1)) None"
    using facts ne by (simp add: list_update_append Suc_diff_le)
  show "ring_inv (l\<lparr>tail := t, buffer := (buffer l)[t := None], size_l := size_l l - 1\<rparr>) \<and>
         list_of (l\<lparr>tail := t, buffer := (buffer l)[t := None], size_l := size_l l - 1\<rparr>)
           = butlast (list_of l)"
    using ring_invI [where xs = ys] facts rot tt len xs by simp
qed


section \<open>The methods\<close>

lemma prepare_push:
  assumes inv: "ring_inv l" and lt: "size_l l < maxCap"
  defines "l1 \<equiv> if size_l l = cap l then grow l else l"
  shows "ring_inv l1" "list_of l1 = list_of l" "size_l l1 < cap l1"
    "size_l l1 = size_l l" "key l1 = key l" "cap l \<le> cap l1"
proof -
  note facts = ring_invD [OF inv]
  show "cap l \<le> cap l1"
    using grow_ring(2) [OF inv] facts by (simp add: l1_def)
  show "ring_inv l1" "list_of l1 = list_of l" "size_l l1 = size_l l" "key l1 = key l"
    using grow_ring [OF inv] inv by (simp_all add: l1_def)
  show "size_l l1 < cap l1"
    using grow_ring(2,3) [OF inv] facts lt by (auto simp: l1_def)
qed

lemma LPush_correct:
  assumes inv: "ring_inv l" and lt: "size_l l < maxCap"
  shows "ring_inv (LPush v l) \<and> list_of (LPush v l) = v # list_of l \<and>
         cap l \<le> cap (LPush v l) \<and> key (LPush v l) = key l"
proof -
  define l1 where "l1 = (if size_l l = cap l then grow l else l)"
  note P = prepare_push [OF inv lt, folded l1_def]
  have "LPush v l = l1\<lparr>head := (head l1 + cap l1 - 1) mod cap l1,
                       buffer := (buffer l1)[(head l1 + cap l1 - 1) mod cap l1 := v],
                       size_l := size_l l1 + 1\<rparr>"
    by (simp add: LPush_def l1_def Let_def)
  then have "ring_inv (LPush v l) \<and> list_of (LPush v l) = v # list_of l1 \<and>
             cap (LPush v l) = cap l1 \<and> key (LPush v l) = key l1"
    using push_left_room [OF P(1) P(3), of v] by simp
  then show ?thesis using P(2,5,6) by simp
qed

lemma RPush_correct:
  assumes inv: "ring_inv l" and lt: "size_l l < maxCap"
  shows "ring_inv (RPush v l) \<and> list_of (RPush v l) = list_of l @ [v] \<and>
         cap l \<le> cap (RPush v l) \<and> key (RPush v l) = key l"
proof -
  define l1 where "l1 = (if size_l l = cap l then grow l else l)"
  note P = prepare_push [OF inv lt, folded l1_def]
  have "RPush v l = l1\<lparr>buffer := (buffer l1)[tail l1 := v], tail := (tail l1 + 1) mod cap l1,
                       size_l := size_l l1 + 1\<rparr>"
    by (simp add: RPush_def l1_def Let_def)
  then have "ring_inv (RPush v l) \<and> list_of (RPush v l) = list_of l1 @ [v] \<and>
             cap (RPush v l) = cap l1 \<and> key (RPush v l) = key l1"
    using push_right_room [OF P(1) P(3), of v] by simp
  then show ?thesis using P(2,5,6) by simp
qed

lemma lpop_loop_correct:
  assumes "ring_inv l" "k \<le> size_l l"
  shows "fst (lpop_loop k l) = take k (list_of l) \<and> ring_inv (snd (lpop_loop k l)) \<and>
         list_of (snd (lpop_loop k l)) = drop k (list_of l) \<and>
         key (snd (lpop_loop k l)) = key l \<and> cap (snd (lpop_loop k l)) = cap l"
  using assms
proof (induction k arbitrary: l)
  case 0
  then show ?case by simp
next
  case (Suc k)
  let ?l' = "l\<lparr>buffer := (buffer l)[head l := None], head := (head l + 1) mod cap l,
                size_l := size_l l - 1\<rparr>"
  have ne: "0 < size_l l" using Suc.prems by simp
  note step = pop_left_step [OF Suc.prems(1) ne]
  have IH: "fst (lpop_loop k ?l') = take k (list_of ?l') \<and> ring_inv (snd (lpop_loop k ?l')) \<and>
            list_of (snd (lpop_loop k ?l')) = drop k (list_of ?l') \<and>
            key (snd (lpop_loop k ?l')) = key ?l' \<and> cap (snd (lpop_loop k ?l')) = cap ?l'"
    using Suc.IH step(2) Suc.prems(2) by simp
  obtain x xs where xs: "list_of l = x # xs"
    using ne length_list_of [OF Suc.prems(1)] by (cases "list_of l") auto
  have "lpop_loop (Suc k) l = (buffer l ! head l # fst (lpop_loop k ?l'), snd (lpop_loop k ?l'))"
    by (simp add: Let_def split_beta)
  then show ?case using IH step xs by simp
qed

lemma drop_butlast_snoc_last:
  "n < length xs \<Longrightarrow> drop n (butlast xs) @ [last xs] = drop n xs"
  by (metis append_butlast_last_id butlast_drop drop_eq_Nil last_drop not_le)

lemma rpop_loop_correct:
  assumes "ring_inv l" "k \<le> size_l l"
  shows "fst (rpop_loop k l) = drop (size_l l - k) (list_of l) \<and> ring_inv (snd (rpop_loop k l)) \<and>
         list_of (snd (rpop_loop k l)) = take (size_l l - k) (list_of l) \<and>
         key (snd (rpop_loop k l)) = key l \<and> cap (snd (rpop_loop k l)) = cap l"
  using assms
proof (induction k arbitrary: l)
  case 0
  then show ?case by (simp add: length_list_of)
next
  case (Suc k)
  let ?t = "(tail l + cap l - 1) mod cap l"
  let ?l' = "l\<lparr>tail := ?t, buffer := (buffer l)[?t := None], size_l := size_l l - 1\<rparr>"
  have ne: "0 < size_l l" using Suc.prems by simp
  note step = pop_right_step [OF Suc.prems(1) ne]
  have IH: "fst (rpop_loop k ?l') = drop (size_l ?l' - k) (list_of ?l') \<and> ring_inv (snd (rpop_loop k ?l')) \<and>
            list_of (snd (rpop_loop k ?l')) = take (size_l ?l' - k) (list_of ?l') \<and>
            key (snd (rpop_loop k ?l')) = key ?l' \<and> cap (snd (rpop_loop k ?l')) = cap ?l'"
    using Suc.IH step(2) Suc.prems(2) by simp
  have len: "length (list_of l) = size_l l" by (rule length_list_of [OF Suc.prems(1)])
  have "rpop_loop (Suc k) l = (fst (rpop_loop k ?l') @ [buffer l ! ?t], snd (rpop_loop k ?l'))"
    by (simp add: Let_def split_beta)
  moreover have "drop (size_l l - 1 - k) (butlast (list_of l)) @ [last (list_of l)]
                   = drop (size_l l - Suc k) (list_of l)"
    using drop_butlast_snoc_last [of "size_l l - Suc k" "list_of l"] len ne by simp
  moreover have "take (size_l l - 1 - k) (butlast (list_of l)) = take (size_l l - Suc k) (list_of l)"
    using len ne by (simp add: take_butlast)
  ultimately show ?case using IH step by simp
qed


section \<open>Refinement of the deque contract\<close>

lemma LPop_refines:
  assumes inv: "ring_inv l"
  shows "map_sum id (apsnd list_of) (LPop cnt l) = deque_step (LPopOp cnt) (list_of l) \<and>
         (\<forall>r l'. LPop cnt l = Inr (r, l') \<longrightarrow> ring_inv l' \<and> cap l' = cap l \<and> key l' = key l)"
proof -
  have len: "length (list_of l) = size_l l" by (rule length_list_of [OF inv])
  show ?thesis
  proof (cases "int (size_l l) < cnt \<or> cnt < 0")
    case True
    then show ?thesis using inv len by (auto simp: LPop_def)
  next
    case False
    then have k: "nat cnt \<le> size_l l" by linarith
    note L = lpop_loop_correct [OF inv k]
    have "LPop cnt l = Inr (Some (fst (lpop_loop (nat cnt) l)), snd (lpop_loop (nat cnt) l))"
      using False by (simp add: LPop_def split_beta)
    then show ?thesis using False L len by simp
  qed
qed

lemma RPop_refines:
  assumes inv: "ring_inv l"
  shows "map_sum id (apsnd list_of) (RPop cnt l) = deque_step (RPopOp cnt) (list_of l) \<and>
         (\<forall>r l'. RPop cnt l = Inr (r, l') \<longrightarrow> ring_inv l' \<and> cap l' = cap l \<and> key l' = key l)"
proof -
  have len: "length (list_of l) = size_l l" by (rule length_list_of [OF inv])
  show ?thesis
  proof (cases "int (size_l l) < cnt \<or> cnt < 0")
    case True
    then show ?thesis using inv len by (auto simp: RPop_def)
  next
    case False
    then have k: "nat cnt \<le> size_l l" by linarith
    note L = rpop_loop_correct [OF inv k]
    have "RPop cnt l = Inr (Some (fst (rpop_loop (nat cnt) l)), snd (rpop_loop (nat cnt) l))"
      using False by (simp add: RPop_def split_beta)
    then show ?thesis using False L len by simp
  qed
qed

lemma list_step_refines:
  assumes inv: "ring_inv l" and room: "is_push op \<longrightarrow> size_l l < maxCap"
  shows "map_sum id (apsnd list_of) (list_step op l) = deque_step op (list_of l) \<and>
         (\<forall>r l'. list_step op l = Inr (r, l') \<longrightarrow>
            ring_inv l' \<and> cap l \<le> cap l' \<and> key l' = key l)"
proof (cases op)
  case (LPushOp v)
  have "size_l l < maxCap" using room LPushOp by simp
  note C = LPush_correct [OF inv this, of v]
  show ?thesis unfolding LPushOp using C by simp
next
  case (RPushOp v)
  have "size_l l < maxCap" using room RPushOp by simp
  note C = RPush_correct [OF inv this, of v]
  show ?thesis unfolding RPushOp using C by simp
next
  case (LPopOp n)
  note R = LPop_refines [OF inv, of n]
  have "\<forall>r l'. list_step op l = Inr (r, l') \<longrightarrow> ring_inv l' \<and> cap l \<le> cap l' \<and> key l' = key l"
  proof (intro allI impI)
    fix r l'
    assume "list_step op l = Inr (r, l')"
    then have "LPop n l = Inr (r, l')" unfolding LPopOp by simp
    with conjunct2 [OF R] have "ring_inv l' \<and> cap l' = cap l \<and> key l' = key l" by blast
    then show "ring_inv l' \<and> cap l \<le> cap l' \<and> key l' = key l" by simp
  qed
  moreover have "map_sum id (apsnd list_of) (list_step op l) = deque_step op (list_of l)"
    unfolding LPopOp using conjunct1 [OF R] by simp
  ultimately show ?thesis by blast
next
  case (RPopOp n)
  note R = RPop_refines [OF inv, of n]
  have "\<forall>r l'. list_step op l = Inr (r, l') \<longrightarrow> ring_inv l' \<and> cap l \<le> cap l' \<and> key l' = key l"
  proof (intro allI impI)
    fix r l'
    assume "list_step op l = Inr (r, l')"
    then have "RPop n l = Inr (r, l')" unfolding RPopOp by simp
    with conjunct2 [OF R] have "ring_inv l' \<and> cap l' = cap l \<and> key l' = key l" by blast
    then show "ring_inv l' \<and> cap l \<le> cap l' \<and> key l' = key l" by simp
  qed
  moreover have "map_sum id (apsnd list_of) (list_step op l) = deque_step op (list_of l)"
    unfolding RPopOp using conjunct1 [OF R] by simp
  ultimately show ?thesis by blast
qed

lemma deque_step_length:
  "deque_step op xs = Inr (r, ys) \<Longrightarrow> length ys \<le> Suc (length xs)"
  by (cases op) (auto split: if_splits)

lemma ToCmd_correct:
  assumes "ring_inv l"
  shows "ToCmd l = Some CmdTypeRPush # Some (key l) # list_of l"
  using map_get_list_of [OF assms] by (simp add: ToCmd_def)

lemma ListRange_full:
  assumes "ring_inv l" "0 < size_l l"
  shows "ListRange 0 (-1) l = Some (list_of l)"
proof -
  have "map (\<lambda>i. get l (0 + int i)) [0..<nat (int (size_l l) - 1 - 0 + 1)] = list_of l"
    using map_get_list_of [OF assms(1)] assms(2) by simp
  with assms(2) show ?thesis by (simp add: ListRange_def)
qed

lemma fold_RPush:
  assumes "ring_inv l" "size_l l + length vs \<le> maxCap"
  shows "ring_inv (fold RPush vs l) \<and> list_of (fold RPush vs l) = list_of l @ vs"
  using assms
proof (induction vs arbitrary: l)
  case Nil
  then show ?case by simp
next
  case (Cons v vs)
  have "size_l l < maxCap" using Cons.prems(2) by simp
  note R = RPush_correct [OF Cons.prems(1) this, of v]
  have "size_l (RPush v l) + length vs \<le> maxCap"
    using R Cons.prems length_list_of [OF Cons.prems(1)] length_list_of [of "RPush v l"] by simp
  with Cons.IH [of "RPush v l"] R show ?case by simp
qed

lemma newListEntity_Nil:
  "newListEntity k [] = Inr \<lparr>key = k, buffer = replicate defaultCap None, head = 0, tail = 0,
                              size_l = 0, cap = defaultCap\<rparr>"
  by (simp add: newListEntity_def)

lemma fresh_ring:
  "ring_inv \<lparr>key = k, buffer = replicate defaultCap None, head = 0, tail = 0, size_l = 0,
             cap = defaultCap\<rparr> \<and>
   list_of \<lparr>key = k, buffer = replicate defaultCap None, head = 0, tail = 0, size_l = 0,
             cap = defaultCap\<rparr> = []"
  by (simp add: ring_inv_def list_of_def)

lemma butlast_rotate1_inv:
  assumes "rotate1 ys = xs" "xs \<noteq> []"
  shows "ys = last xs # butlast xs"
proof -
  have "rotate1 (last xs # butlast xs) = xs" using assms(2) by simp
  with assms(1) show ?thesis by (metis rotate1_injD)
qed

lemma newListEntity_shape:
  assumes "length es \<le> maxCap"
  shows "\<exists>C. is_pow2 C \<and> length es \<le> C \<and> C \<le> maxCap \<and>
           (length es \<le> defaultCap \<longrightarrow> C = defaultCap) \<and>
           newListEntity k es = Inr \<lparr>key = k, buffer = es @ replicate (C - length es) None,
              head = 0, tail = length es, size_l = length es, cap = C\<rparr>"
proof (cases "length es > defaultCap")
  case True
  then have "1 \<le> length es" by (simp add: defaultCap_def)
  from setCap_pow2 [OF this assms] obtain j where j: "j \<le> 30"
    "setCap (word_of_nat (length es)) = 2 ^ j" "length es \<le> 2 ^ j" by blast
  have c: "sint (setCap (word_of_nat (length es))) = 2 ^ j" using j(1,2) sint_pow2 by simp
  have "(2::nat) ^ j \<le> 2 ^ 30" using power_increasing [OF j(1), of "2::nat"] by simp
  then have "(2::nat) ^ j \<le> maxCap" by (simp add: maxCap_def)
  moreover have "newListEntity k es = Inr \<lparr>key = k, buffer = es @ replicate (2 ^ j - length es) None,
              head = 0, tail = length es, size_l = length es, cap = 2 ^ j\<rparr>"
    using True c j(3) by (simp add: newListEntity_def nat_power_eq)
  ultimately show ?thesis using True j(3) by (intro exI [of _ "2 ^ j"]) simp
next
  case False
  then show ?thesis by (intro exI [of _ defaultCap]) (simp add: newListEntity_def)
qed

lemma ListRange_refines:
  assumes inv: "ring_inv l"
  shows "ListRange start stop l = range_spec start stop (list_of l)"
proof -
  have len: "length (list_of l) = size_l l" by (rule length_list_of [OF inv])
  have "map (\<lambda>i. get l (start + int i)) [0..<nat (e - start + 1)] =
          take (nat (e - start + 1)) (drop (nat start) (list_of l))"
    if "0 \<le> start" "start \<le> e" "e < int (size_l l)" for e
  proof (rule nth_equalityI)
    fix i
    assume "i < length (map (\<lambda>i. get l (start + int i)) [0..<nat (e - start + 1)])"
    then have i: "i < nat (e - start + 1)" by simp
    then have "nat (start + int i) = nat start + i" "nat start + i < size_l l"
      using that by linarith+
    then show "map (\<lambda>i. get l (start + int i)) [0..<nat (e - start + 1)] ! i =
               take (nat (e - start + 1)) (drop (nat start) (list_of l)) ! i"
      using i that len by (simp add: get_list_of [OF inv])
  qed (use that len in simp)
  then show ?thesis using len by (auto simp: ListRange_def range_spec_def Let_def)
qed


section \<open>Properties of the list entity\<close>

text \<open>
  C1 (refinement).  A list entity that satisfies the ring invariant behaves as the
  plain list of its elements: running any sequence of pushes and pops on it, as
  long as the pushes cannot reach \<open>maxCap\<close>, gives the outcome of the deque
  contract (the same panic, or the same final element list), and every state it
  reaches satisfies the invariant again.
\<close>

theorem list_run_refines:
  assumes "ring_inv l" "size_l l + length ops \<le> maxCap"
  shows "map_sum id list_of (list_run ops l) = deque_run ops (list_of l) \<and>
         (\<forall>l'. list_run ops l = Inr l' \<longrightarrow> ring_inv l')"
  using assms
proof (induction ops arbitrary: l)
  case Nil
  then show ?case by simp
next
  case (Cons op ops)
  have room: "is_push op \<longrightarrow> size_l l < maxCap" using Cons.prems(2) by simp
  note R1 = conjunct1 [OF list_step_refines [OF Cons.prems(1) room]]
  note R2 = conjunct2 [OF list_step_refines [OF Cons.prems(1) room]]
  show ?case
  proof (cases "list_step op l")
    case (Inl e)
    with R1 have "deque_step op (list_of l) = Inl e" by simp
    with Inl show ?thesis by simp
  next
    case (Inr p)
    obtain r l' where p: "p = (r, l')" by fastforce
    with Inr R2 have inv': "ring_inv l'" by blast
    from Inr p R1 have ds: "deque_step op (list_of l) = Inr (r, list_of l')" by simp
    have "length (list_of l') \<le> Suc (length (list_of l))"
      using deque_step_length [OF ds] .
    then have "size_l l' + length ops \<le> maxCap"
      using Cons.prems length_list_of [OF inv'] length_list_of [OF Cons.prems(1)] by simp
    with Cons.IH [OF inv'] Inr p ds show ?thesis by simp
  qed
qed

theorem list_run_refines_witness:
  "ring_inv \<lparr>key = ''k'', buffer = replicate defaultCap None, head = 0, tail = 0, size_l = 0,
             cap = defaultCap\<rparr> \<and>
   size_l \<lparr>key = ''k'', buffer = replicate defaultCap None, head = 0, tail = 0, size_l = 0,
             cap = defaultCap\<rparr> + length [RPushOp (Some ''a''), LPushOp (Some ''b''), LPopOp 1] \<le> maxCap \<and>
   map_sum id list_of (list_run [RPushOp (Some ''a''), LPushOp (Some ''b''), LPopOp 1]
       \<lparr>key = ''k'', buffer = replicate defaultCap None, head = 0, tail = 0, size_l = 0,
        cap = defaultCap\<rparr>) = Inr [Some ''a'']"
proof -
  have inv: "ring_inv \<lparr>key = ''k'', buffer = replicate defaultCap None, head = 0, tail = 0,
               size_l = 0, cap = defaultCap\<rparr>"
    using fresh_ring by blast
  have room: "size_l \<lparr>key = ''k'', buffer = replicate defaultCap None, head = 0, tail = 0,
               size_l = 0, cap = defaultCap\<rparr> +
              length [RPushOp (Some ''a''), LPushOp (Some ''b''), LPopOp 1] \<le> maxCap"
    by (simp add: maxCap_def)
  show ?thesis
    using list_run_refines [OF inv room] inv room fresh_ring by simp
qed

text \<open>
  C2 (invariant).  Every method keeps the ring invariant (\<open>0 \<le> size \<le> cap\<close>,
  \<open>cap\<close> a power of two no larger than \<open>maxCap\<close>, the elements in the slots
  \<open>(head + i) mod cap\<close>, the vacated slots \<open>nil\<close>), as long as a push does not
  find the list at \<open>maxCap\<close>; capacity never shrinks and the key never changes.
\<close>

theorem list_step_keeps_inv:
  assumes "ring_inv l" and "is_push op \<longrightarrow> size_l l < maxCap"
    and "list_step op l = Inr (r, l')"
  shows "ring_inv l' \<and> cap l \<le> cap l' \<and> key l' = key l"
  using list_step_refines [OF assms(1,2)] assms(3) by blast

theorem list_step_keeps_inv_witness:
  "ring_inv \<lparr>key = ''k'', buffer = replicate defaultCap None, head = 0, tail = 0, size_l = 0,
             cap = defaultCap\<rparr> \<and>
   is_push (RPushOp (Some ''a'')) \<and>
   size_l \<lparr>key = ''k'', buffer = replicate defaultCap None, head = 0, tail = 0, size_l = 0,
           cap = defaultCap\<rparr> < maxCap \<and>
   list_step (RPushOp (Some ''a'')) \<lparr>key = ''k'', buffer = replicate defaultCap None, head = 0,
      tail = 0, size_l = 0, cap = defaultCap\<rparr> =
     Inr (None, RPush (Some ''a'') \<lparr>key = ''k'', buffer = replicate defaultCap None, head = 0,
      tail = 0, size_l = 0, cap = defaultCap\<rparr>) \<and>
   ring_inv (RPush (Some ''a'') \<lparr>key = ''k'', buffer = replicate defaultCap None, head = 0,
      tail = 0, size_l = 0, cap = defaultCap\<rparr>)"
proof -
  have inv: "ring_inv \<lparr>key = ''k'', buffer = replicate defaultCap None, head = 0, tail = 0,
               size_l = 0, cap = defaultCap\<rparr>"
    using fresh_ring by blast
  have room: "is_push (RPushOp (Some ''a'')) \<longrightarrow>
      size_l \<lparr>key = ''k'', buffer = replicate defaultCap None, head = 0, tail = 0, size_l = 0,
              cap = defaultCap\<rparr> < maxCap"
    by (simp add: maxCap_def)
  have step: "list_step (RPushOp (Some ''a'')) \<lparr>key = ''k'', buffer = replicate defaultCap None,
      head = 0, tail = 0, size_l = 0, cap = defaultCap\<rparr> =
     Inr (None, RPush (Some ''a'') \<lparr>key = ''k'', buffer = replicate defaultCap None, head = 0,
      tail = 0, size_l = 0, cap = defaultCap\<rparr>)"
    by simp
  have lt: "size_l \<lparr>key = ''k'', buffer = replicate defaultCap None, head = 0, tail = 0,
              size_l = 0, cap = defaultCap\<rparr> < maxCap"
    by (simp add: maxCap_def)
  show ?thesis using list_step_keeps_inv [OF inv room step] inv lt step by simp
qed

text \<open>
  C3 (functional).  \<open>Range(start, stop)\<close> returns exactly the elements
  \<open>start..stop\<close> of the deque (\<open>stop = -1\<close> meaning the last one), and fails
  (\<open>nil\<close>) on an empty list or when the bounds are out of \<open>[0, size)\<close> or
  reversed.
\<close>

theorem ListRange_correct:
  assumes inv: "ring_inv l"
  shows "ListRange start stop l =
           (let n = int (size_l l); e = (if stop = -1 then n - 1 else stop)
            in if n = 0 \<or> start < 0 \<or> n \<le> start \<or> e < 0 \<or> n \<le> e \<or> e < start then None
               else Some (take (nat (e - start + 1)) (drop (nat start) (list_of l))))"
  using ListRange_refines [OF inv] length_list_of [OF inv] by (simp add: range_spec_def)

theorem ListRange_correct_witness:
  "ring_inv \<lparr>key = ''k'', buffer = replicate defaultCap None, head = 0, tail = 0, size_l = 0,
             cap = defaultCap\<rparr> \<and>
   ListRange 0 (-1) \<lparr>key = ''k'', buffer = replicate defaultCap None, head = 0, tail = 0,
             size_l = 0, cap = defaultCap\<rparr> = None"
proof -
  have inv: "ring_inv \<lparr>key = ''k'', buffer = replicate defaultCap None, head = 0, tail = 0,
               size_l = 0, cap = defaultCap\<rparr>"
    using fresh_ring by blast
  show ?thesis using ListRange_correct [OF inv, of 0 "-1"] inv by simp
qed

text \<open>
  C4 (functional).  The ordering example of the spec, for any list: after
  \<open>RPush(a); RPush(b); LPush(c)\<close>, \<open>Range(0, -1)\<close> returns \<open>c\<close>, the old
  elements, \<open>a\<close>, \<open>b\<close>, in that order, whatever the wrap-around and growth of
  the buffer in between.
\<close>

theorem deque_ordering:
  assumes inv: "ring_inv l" and room: "size_l l + 3 \<le> maxCap"
  shows "ListRange 0 (-1) (LPush c (RPush b (RPush a l))) = Some (c # list_of l @ [a, b])"
proof -
  have "size_l l < maxCap" using room by simp
  note A = RPush_correct [OF inv this, of a]
  have "size_l (RPush a l) < maxCap"
    using A room length_list_of [OF inv] length_list_of [of "RPush a l"] by simp
  note B = RPush_correct [OF conjunct1 [OF A] this, of b]
  have "size_l (RPush b (RPush a l)) < maxCap"
    using A B room length_list_of [OF inv] length_list_of [of "RPush a l"]
      length_list_of [of "RPush b (RPush a l)"] by simp
  note C = LPush_correct [OF conjunct1 [OF B] this, of c]
  have "0 < size_l (LPush c (RPush b (RPush a l)))"
    using C length_list_of [of "LPush c (RPush b (RPush a l))"] by auto
  with C have "ListRange 0 (-1) (LPush c (RPush b (RPush a l))) = Some (list_of (LPush c (RPush b (RPush a l))))"
    by (simp add: ListRange_full)
  with A B C show ?thesis by simp
qed

theorem deque_ordering_witness:
  "ring_inv \<lparr>key = ''k'', buffer = replicate defaultCap None, head = 0, tail = 0, size_l = 0,
             cap = defaultCap\<rparr> \<and>
   size_l \<lparr>key = ''k'', buffer = replicate defaultCap None, head = 0, tail = 0, size_l = 0,
             cap = defaultCap\<rparr> + 3 \<le> maxCap \<and>
   ListRange 0 (-1) (LPush (Some ''c'') (RPush (Some ''b'') (RPush (Some ''a'')
       \<lparr>key = ''k'', buffer = replicate defaultCap None, head = 0, tail = 0, size_l = 0,
        cap = defaultCap\<rparr>))) = Some [Some ''c'', Some ''a'', Some ''b'']"
proof -
  have inv: "ring_inv \<lparr>key = ''k'', buffer = replicate defaultCap None, head = 0, tail = 0,
               size_l = 0, cap = defaultCap\<rparr>"
    using fresh_ring by blast
  have room: "size_l \<lparr>key = ''k'', buffer = replicate defaultCap None, head = 0, tail = 0,
               size_l = 0, cap = defaultCap\<rparr> + 3 \<le> maxCap"
    by (simp add: maxCap_def)
  show ?thesis using deque_ordering [OF inv room] inv room fresh_ring by simp
qed

text \<open>
  C5 (functional).  Pops are all or nothing: a successful \<open>LPop(n)\<close> either
  returns \<open>nil\<close> and leaves the list untouched (exactly when fewer than \<open>n\<close>
  elements are present), or returns exactly \<open>n\<close> elements, which together with
  the remaining list make up the old list in order; \<open>RPop\<close> likewise from the
  right end.
\<close>

theorem pop_all_or_nothing:
  assumes inv: "ring_inv l"
  shows "(LPop cnt l = Inr (r, l') \<longrightarrow>
            (r = None \<and> l' = l \<and> int (size_l l) < cnt) \<or>
            (\<exists>ys. r = Some ys \<and> length ys = nat cnt \<and> list_of l = ys @ list_of l')) \<and>
         (RPop cnt l = Inr (r, l') \<longrightarrow>
            (r = None \<and> l' = l \<and> int (size_l l) < cnt) \<or>
            (\<exists>ys. r = Some ys \<and> length ys = nat cnt \<and> list_of l = list_of l' @ ys))"
proof (cases "int (size_l l) < cnt \<or> cnt < 0")
  case True
  then show ?thesis by (auto simp: LPop_def RPop_def)
next
  case False
  then have k: "nat cnt \<le> size_l l" by linarith
  have len: "length (list_of l) = size_l l" by (rule length_list_of [OF inv])
  note L = lpop_loop_correct [OF inv k] and R = rpop_loop_correct [OF inv k]
  have "LPop cnt l = Inr (Some (fst (lpop_loop (nat cnt) l)), snd (lpop_loop (nat cnt) l))"
    "RPop cnt l = Inr (Some (fst (rpop_loop (nat cnt) l)), snd (rpop_loop (nat cnt) l))"
    using False by (simp_all add: LPop_def RPop_def split_beta)
  moreover have "list_of l = take (nat cnt) (list_of l) @ drop (nat cnt) (list_of l)"
    "list_of l = take (size_l l - nat cnt) (list_of l) @ drop (size_l l - nat cnt) (list_of l)"
    by simp_all
  ultimately show ?thesis using L R k len by auto
qed

theorem pop_all_or_nothing_witness:
  "ring_inv \<lparr>key = ''k'', buffer = replicate defaultCap None, head = 0, tail = 0, size_l = 0,
             cap = defaultCap\<rparr> \<and>
   LPop 1 \<lparr>key = ''k'', buffer = replicate defaultCap None, head = 0, tail = 0, size_l = 0,
             cap = defaultCap\<rparr> =
     Inr (None, \<lparr>key = ''k'', buffer = replicate defaultCap None, head = 0, tail = 0, size_l = 0,
             cap = defaultCap\<rparr>) \<and>
   RPop 1 \<lparr>key = ''k'', buffer = replicate defaultCap None, head = 0, tail = 0, size_l = 0,
             cap = defaultCap\<rparr> =
     Inr (None, \<lparr>key = ''k'', buffer = replicate defaultCap None, head = 0, tail = 0, size_l = 0,
             cap = defaultCap\<rparr>)"
proof -
  have inv: "ring_inv \<lparr>key = ''k'', buffer = replicate defaultCap None, head = 0, tail = 0,
               size_l = 0, cap = defaultCap\<rparr>"
    using fresh_ring by blast
  have "LPop 1 \<lparr>key = ''k'', buffer = replicate defaultCap None, head = 0, tail = 0, size_l = 0,
             cap = defaultCap\<rparr> =
     Inr (None, \<lparr>key = ''k'', buffer = replicate defaultCap None, head = 0, tail = 0, size_l = 0,
             cap = defaultCap\<rparr>)"
    "RPop 1 \<lparr>key = ''k'', buffer = replicate defaultCap None, head = 0, tail = 0, size_l = 0,
             cap = defaultCap\<rparr> =
     Inr (None, \<lparr>key = ''k'', buffer = replicate defaultCap None, head = 0, tail = 0, size_l = 0,
             cap = defaultCap\<rparr>)"
    by (simp_all add: LPop_def RPop_def)
  with pop_all_or_nothing [OF inv] inv show ?thesis by blast
qed

text \<open>
  C6 (roundtrip).  The reconstruction command of a list is \<open>rpush\<close>, its key and
  its elements, and pushing those elements to the right of a fresh list made by
  \<open>newListEntity(key)\<close> rebuilds the same deque.
\<close>

theorem ToCmd_replay:
  assumes inv: "ring_inv l"
  shows "\<exists>e args. newListEntity (key l) [] = Inr e \<and>
           ToCmd l = Some CmdTypeRPush # Some (key l) # args \<and>
           ring_inv (fold RPush args e) \<and> list_of (fold RPush args e) = list_of l"
proof -
  let ?e = "\<lparr>key = key l, buffer = replicate defaultCap None, head = 0, tail = 0, size_l = 0,
             cap = defaultCap\<rparr>"
  have fresh: "ring_inv ?e" "list_of ?e = []" using fresh_ring by blast+
  have "length (list_of l) \<le> maxCap"
    using ring_invD [OF inv] length_list_of [OF inv] by simp
  then have "size_l ?e + length (list_of l) \<le> maxCap" by simp
  note F = fold_RPush [OF fresh(1) this]
  show ?thesis
    using newListEntity_Nil [of "key l"] ToCmd_correct [OF inv] F fresh(2) by auto
qed

theorem ToCmd_replay_witness:
  "ring_inv \<lparr>key = ''k'', buffer = replicate defaultCap None, head = 0, tail = 0, size_l = 0,
             cap = defaultCap\<rparr> \<and>
   (\<exists>e args. newListEntity ''k'' [] = Inr e \<and>
      ToCmd \<lparr>key = ''k'', buffer = replicate defaultCap None, head = 0, tail = 0, size_l = 0,
             cap = defaultCap\<rparr> = Some CmdTypeRPush # Some ''k'' # args \<and>
      ring_inv (fold RPush args e) \<and> list_of (fold RPush args e) = [])"
proof -
  have inv: "ring_inv \<lparr>key = ''k'', buffer = replicate defaultCap None, head = 0, tail = 0,
               size_l = 0, cap = defaultCap\<rparr>"
    using fresh_ring by blast
  show ?thesis using ToCmd_replay [OF inv] inv fresh_ring by simp
qed

text \<open>
  C7 (safety, a defect of the code).  A push onto a full list at the ceiling
  \<open>maxCap = 2^30\<close> does not fail: \<open>grow\<close> returns without growing, and
  \<open>LPush\<close> writes its value into the slot before \<open>head\<close>, which on a full ring
  is the slot of the last element.  The list then claims \<open>maxCap + 1\<close> elements,
  breaks the invariant, and its last element is lost.
\<close>

theorem LPush_at_maxCap:
  assumes inv: "ring_inv l" and full: "size_l l = maxCap"
  shows "size_l (LPush v l) = maxCap + 1 \<and> \<not> ring_inv (LPush v l) \<and>
         list_of (LPush v l) = v # butlast (list_of l)"
proof -
  note facts = ring_invD [OF inv]
  have c: "cap l = maxCap" using facts full by simp
  have "grow l = l" using c by (simp add: grow_def)
  then have L: "LPush v l = l\<lparr>head := (head l + cap l - 1) mod cap l,
                  buffer := (buffer l)[(head l + cap l - 1) mod cap l := v], size_l := size_l l + 1\<rparr>"
    using full c by (simp add: LPush_def Let_def)
  let ?h = "(head l + cap l - 1) mod cap l"
  have hL: "?h < cap l" using facts by simp
  have R: "rotate (head l) (buffer l) = list_of l" using ring_view [OF inv] full c by simp
  have ne: "list_of l \<noteq> []" using length_list_of [OF inv] full c facts by auto
  have "rotate1 (rotate ?h (buffer l)) = rotate (head l) (buffer l)"
    using rotate_back [of "buffer l" "head l"] facts by simp
  with R ne have Q: "rotate ?h (buffer l) = last (list_of l) # butlast (list_of l)"
    by (simp add: butlast_rotate1_inv)
  have "rotate ?h ((buffer l)[?h := v]) = (rotate ?h (buffer l))[0 := v]"
    using rotate_list_update [of 0 "buffer l" ?h v] facts hL by simp
  with Q have rot: "rotate ?h ((buffer l)[?h := v]) = v # butlast (list_of l)" by simp
  have "length (buffer l) = maxCap" using facts c by simp
  then have "list_of (LPush v l) = v # butlast (list_of l)"
    using L rot length_list_of [OF inv] full ne by (simp add: list_of_def)
  moreover have "size_l (LPush v l) = maxCap + 1" using L full by simp
  moreover have "\<not> ring_inv (LPush v l)"
    using L full c by (simp add: ring_inv_def)
  ultimately show ?thesis by blast
qed

theorem LPush_at_maxCap_witness:
  "ring_inv \<lparr>key = ''k'', buffer = replicate maxCap (Some ''x''), head = 0, tail = 0,
             size_l = maxCap, cap = maxCap\<rparr> \<and>
   size_l \<lparr>key = ''k'', buffer = replicate maxCap (Some ''x''), head = 0, tail = 0,
             size_l = maxCap, cap = maxCap\<rparr> = maxCap \<and>
   \<not> ring_inv (LPush (Some ''y'') \<lparr>key = ''k'', buffer = replicate maxCap (Some ''x''), head = 0,
             tail = 0, size_l = maxCap, cap = maxCap\<rparr>)"
proof -
  have inv: "ring_inv \<lparr>key = ''k'', buffer = replicate maxCap (Some ''x''), head = 0, tail = 0,
               size_l = maxCap, cap = maxCap\<rparr>"
    by (simp add: ring_inv_def maxCap_pos)
  show ?thesis using LPush_at_maxCap [OF inv] inv by simp
qed

text \<open>
  C8 (functional).  \<open>newListEntity(key, elements...)\<close> with at most
  \<open>maxCap\<close> elements holds exactly those elements, in a buffer whose capacity is
  a power of two no smaller than their number (\<open>defaultCap\<close> or \<open>setCap\<close> of the
  count), and satisfies the ring invariant whenever the elements do not fill the
  buffer.
\<close>

theorem newListEntity_correct:
  assumes "length es \<le> maxCap"
  shows "\<exists>l. newListEntity k es = Inr l \<and> key l = k \<and> list_of l = es \<and>
           length es \<le> cap l \<and> is_pow2 (cap l) \<and> cap l \<le> maxCap \<and>
           (length es < cap l \<longrightarrow> ring_inv l)"
proof -
  obtain C where C: "is_pow2 C" "length es \<le> C" "C \<le> maxCap"
    "newListEntity k es = Inr \<lparr>key = k, buffer = es @ replicate (C - length es) None,
        head = 0, tail = length es, size_l = length es, cap = C\<rparr>"
    using newListEntity_shape [OF assms] by blast
  let ?l = "\<lparr>key = k, buffer = es @ replicate (C - length es) None,
        head = 0, tail = length es, size_l = length es, cap = C\<rparr>"
  have "length es < C \<longrightarrow> ring_inv ?l"
    using C(1,2,3) by (auto simp: ring_inv_def)
  moreover have "list_of ?l = es" by (simp add: list_of_def)
  ultimately show ?thesis using C by auto
qed

theorem newListEntity_correct_witness:
  "length [Some ''a'', Some ''b''] \<le> maxCap \<and>
   (\<exists>l. newListEntity ''k'' [Some ''a'', Some ''b''] = Inr l \<and> key l = ''k'' \<and>
        list_of l = [Some ''a'', Some ''b''] \<and> ring_inv l)"
proof -
  have h: "length [Some ''a'', Some ''b''] \<le> maxCap" by (simp add: maxCap_def)
  have N: "newListEntity ''k'' [Some ''a'', Some ''b''] =
            Inr \<lparr>key = ''k'', buffer = [Some ''a'', Some ''b''] @ replicate 14 None, head = 0,
                 tail = 2, size_l = 2, cap = 16\<rparr>"
    by (simp add: newListEntity_def defaultCap_def)
  from newListEntity_correct [OF h, of "''k''"] obtain l where
    l: "newListEntity ''k'' [Some ''a'', Some ''b''] = Inr l" "key l = ''k''"
       "list_of l = [Some ''a'', Some ''b'']"
       "length [Some ''a'', Some ''b''] < cap l \<longrightarrow> ring_inv l"
    by blast
  from l(1) N have "cap l = 16" by auto
  with l h show ?thesis by auto
qed

text \<open>
  C10 (safety, a defect of the code).  When the initial elements fill the buffer
  exactly (16 elements, or a power of two above 16, since \<open>setCap\<close> then
  returns the count itself), \<open>newListEntity\<close> sets \<open>tail = len(elements) = cap\<close>,
  one past the last slot.  After one \<open>LPop\<close> the list is no longer full, so the
  next \<open>RPush\<close> does not grow it and indexes \<open>buffer[tail]\<close> with
  \<open>tail = len(buffer)\<close>: an index out of range, a panic in Go.
\<close>

theorem newListEntity_full_tail:
  assumes "length es = defaultCap"
  shows "\<exists>l l'. newListEntity k es = Inr l \<and> LPop 1 l = Inr (Some [hd es], l') \<and>
           size_l l' < cap l' \<and> tail l' = length (buffer l')"
proof -
  have ne: "es \<noteq> []"
  proof
    assume "es = []"
    with assms have "defaultCap = 0" by simp
    with defaultCap_pos show False by simp
  qed
  have N: "newListEntity k es = Inr \<lparr>key = k, buffer = es, head = 0, tail = defaultCap,
              size_l = defaultCap, cap = defaultCap\<rparr>"
    using assms by (simp add: newListEntity_def)
  let ?l = "\<lparr>key = k, buffer = es, head = 0, tail = defaultCap, size_l = defaultCap,
              cap = defaultCap\<rparr>"
  have "LPop 1 ?l = Inr (Some [hd es], ?l\<lparr>buffer := es[0 := None], head := 1 mod defaultCap,
                          size_l := defaultCap - 1\<rparr>)"
    using ne by (simp add: LPop_def hd_conv_nth)
  then show ?thesis using N assms by auto
qed

theorem newListEntity_full_tail_witness:
  "length (replicate 16 (Some ''x'')) = defaultCap \<and>
   (\<exists>l l'. newListEntity ''k'' (replicate 16 (Some ''x'')) = Inr l \<and>
      LPop 1 l = Inr (Some [Some ''x''], l') \<and> size_l l' < cap l' \<and> tail l' = length (buffer l'))"
proof -
  have h: "length (replicate 16 (Some ''x'')) = defaultCap" by (simp add: defaultCap_def)
  show ?thesis using newListEntity_full_tail [OF h, of "''k''"] h by simp
qed

end
