(* ===== verification/Resp.thy ===== *)
theory Resp
  imports Prelude
begin

text \<open>
  The multi-bulk command encoding that carries commands on the wire and in the
  append-only file.  The reply type and the protocol parser live outside the
  repository's sources (the \<open>handler\<close> package's \<open>MultiBulkReply.ToBytes\<close> and the
  \<open>protocol\<close> parser), so both directions are modelled from the specification:
  a command is \<open>*<count>\r\n\<close> followed by each argument as
  \<open>$<len>\r\n<bytes>\r\n\<close>, a \<open>nil\<close> argument as \<open>$-1\r\n\<close>.  A log is the
  concatenation of encoded commands.  The decoder consumes one command at a time
  and reports a malformed stream as \<open>None\<close>; \<open>decode_log\<close> terminates because
  every decoded command consumes at least its leading \<open>*\<close>.
\<close>

definition CRLF :: string where
  "CRLF = [CHR 0x0D, CHR 0x0A]"

text \<open>
  The replies of the \<open>handler\<close> package that the components produce: status,
  integer, bulk and multi-bulk replies, the empty (nil) reply, and the error
  replies (a free-form error, wrong type, syntax, and the handler's unknown
  error).  On a connection each is written as its \<open>ToBytes\<close> encoding; the model
  keeps the reply value.
\<close>

datatype reply =
    OkReply
  | IntReply int
  | BulkReply byteslice
  | MultiBulkReply "byteslice list"
  | NilReply
  | ErrReply string
  | WrongTypeErrReply
  | SyntaxErrReply
  | UnknownErrReply

text \<open>\<open>MultiBulkReply.ToBytes\<close>: one argument, then the whole command line.\<close>

fun encode_arg :: "byteslice \<Rightarrow> string" where
  "encode_arg None = ''$-1'' @ CRLF"
| "encode_arg (Some b) = ''$'' @ show_nat (length b) @ CRLF @ b @ CRLF"

definition encode_cmd :: "byteslice list \<Rightarrow> string" where
  "encode_cmd args = ''*'' @ show_nat (length args) @ CRLF @ concat (map encode_arg args)"

definition encode_log :: "byteslice list list \<Rightarrow> string" where
  "encode_log cmds = concat (map encode_cmd cmds)"

text \<open>
  The parser: a header line is an optionally negative decimal terminated by CRLF;
  a bulk argument of length \<open>n\<close> is followed by exactly \<open>n\<close> bytes and CRLF.
\<close>

definition read_line_end :: "int \<Rightarrow> string \<Rightarrow> (int \<times> string) option" where
  "read_line_end n r = (if take 2 r = CRLF then Some (n, drop 2 r) else None)"

definition read_count :: "string \<Rightarrow> (int \<times> string) option" where
  "read_count s =
     (let neg = (s \<noteq> [] \<and> hd s = CHR ''-'');
          r = (if neg then tl s else s);
          ds = takeWhile isDigit r
      in if ds = [] then None
         else read_line_end (if neg then - int (digits_val ds) else int (digits_val ds))
                (dropWhile isDigit r))"

definition decode_arg :: "string \<Rightarrow> (byteslice \<times> string) option" where
  "decode_arg s =
     (if s = [] \<or> hd s \<noteq> CHR ''$'' then None
      else case read_count (tl s) of
        None \<Rightarrow> None
      | Some (n, r) \<Rightarrow>
          if n = -1 then Some (None, r)
          else if n < 0 then None
          else let m = nat n in
            if m + 2 \<le> length r \<and> take 2 (drop m r) = CRLF
            then Some (Some (take m r), drop (m + 2) r) else None)"

fun decode_args :: "nat \<Rightarrow> string \<Rightarrow> (byteslice list \<times> string) option" where
  "decode_args 0 s = Some ([], s)"
| "decode_args (Suc n) s =
     (case decode_arg s of
        None \<Rightarrow> None
      | Some (a, r) \<Rightarrow>
          (case decode_args n r of None \<Rightarrow> None | Some (as, r') \<Rightarrow> Some (a # as, r')))"

definition decode_cmd :: "string \<Rightarrow> (byteslice list \<times> string) option" where
  "decode_cmd s =
     (if s = [] \<or> hd s \<noteq> CHR ''*'' then None
      else case read_count (tl s) of
        None \<Rightarrow> None
      | Some (n, r) \<Rightarrow> if n < 0 then None else decode_args (nat n) r)"

function decode_log :: "string \<Rightarrow> byteslice list list option" where
  "decode_log s =
     (if s = [] then Some []
      else case decode_cmd s of
        None \<Rightarrow> None
      | Some (c, r) \<Rightarrow> map_option (Cons c) (decode_log r))"
  by pat_completeness auto
termination
proof (relation "measure length")
  have count: "length r \<le> length s" if "read_count s = Some (n, r)" for s n r
    using that length_dropWhile_le [of isDigit "tl s"] length_dropWhile_le [of isDigit s]
    by (auto simp: read_count_def read_line_end_def Let_def split: if_splits)
  have arg: "length r < length s" if "decode_arg s = Some (a, r)" for s a r
    using that count [of "tl s"]
    by (cases s) (auto simp: decode_arg_def Let_def split: option.splits if_splits)
  have args: "length r \<le> length s" if "decode_args n s = Some (as, r)" for n s as r
    using that
  proof (induction n arbitrary: s as)
    case (Suc n)
    then show ?case by (fastforce dest: arg split: option.splits)
  qed simp
  fix s x c r
  assume "s \<noteq> []" "decode_cmd s = Some x" "(c, r) = x"
  then show "(r, s) \<in> measure length"
    using count [of "tl s"] args
    by (cases s) (fastforce simp: decode_cmd_def split: option.splits if_splits)+
qed simp


declare decode_log.simps [simp del]

lemma read_count_shorter: "read_count s = Some (n, r) \<Longrightarrow> length r \<le> length s"
  using length_dropWhile_le [of isDigit "tl s"] length_dropWhile_le [of isDigit s]
  by (auto simp: read_count_def read_line_end_def Let_def split: if_splits)

lemma decode_arg_shorter: "decode_arg s = Some (a, r) \<Longrightarrow> length r < length s"
  using read_count_shorter [of "tl s"]
  by (cases s) (auto simp: decode_arg_def Let_def split: option.splits if_splits)

lemma decode_args_shorter: "decode_args n s = Some (as, r) \<Longrightarrow> length r \<le> length s"
proof (induction n arbitrary: s as)
  case (Suc n)
  then show ?case by (fastforce dest: decode_arg_shorter split: option.splits)
qed simp

text \<open>Every decoded command consumes input: the measure of the decoding loops.\<close>

lemma decode_cmd_shorter: "decode_cmd s = Some (c, r) \<Longrightarrow> length r < length s"
  using read_count_shorter [of "tl s"] decode_args_shorter
  by (cases s) (fastforce simp: decode_cmd_def split: option.splits if_splits)+

section \<open>Round trip of the encoding\<close>

lemma CR_not_digit [simp]: "\<not> isDigit (CHR 0x0D)"
  by (simp add: isDigit_def)

lemma length_CRLF [simp]: "length CRLF = 2"
  by (simp add: CRLF_def)

lemma take_CRLF [simp]: "take 2 (CRLF @ r) = CRLF" "drop 2 (CRLF @ r) = r"
  by (simp_all add: CRLF_def)

lemma show_nat_hd_not_minus: "hd (show_nat n @ r) \<noteq> CHR ''-''"
proof -
  have "hd (show_nat n) \<in> set (show_nat n)" by simp
  then have "isDigit (hd (show_nat n))" using show_nat_digits by blast
  then show ?thesis by (auto simp: isDigit_def)
qed

lemma read_count_show_nat [simp]: "read_count (show_nat n @ CRLF @ r) = Some (int n, r)"
  using show_nat_hd_not_minus [of n "CRLF @ r"]
  by (simp add: read_count_def read_line_end_def CRLF_def Let_def)

lemma read_count_minus_one [simp]: "read_count (CHR ''-'' # CHR ''1'' # CRLF @ r) = Some (-1, r)"
  by (simp add: read_count_def read_line_end_def CRLF_def isDigit_def digit_val_def)

lemma decode_arg_encode [simp]: "decode_arg (encode_arg a @ r) = Some (a, r)"
  by (cases a) (simp_all add: decode_arg_def)

lemma decode_args_encode:
  "decode_args (length as) (concat (map encode_arg as) @ r) = Some (as, r)"
  by (induction as) simp_all

lemma decode_cmd_encode [simp]: "decode_cmd (encode_cmd c @ r) = Some (c, r)"
  using decode_args_encode [of c r] by (simp add: decode_cmd_def encode_cmd_def)

lemma encode_cmd_ne [simp]: "encode_cmd c \<noteq> []"
  by (simp add: encode_cmd_def)

text \<open>Decoding a log that starts with encoded commands yields those commands, then
  whatever the rest decodes to.\<close>

lemma decode_log_append:
  "decode_log (encode_log cs @ r) = map_option ((@) cs) (decode_log r)"
proof (induction cs)
  case Nil
  then show ?case by (simp add: encode_log_def option.map_ident)
next
  case (Cons c cs)
  have "decode_log (encode_cmd c @ encode_log cs @ r)
          = map_option (Cons c) (decode_log (encode_log cs @ r))"
    by (subst decode_log.simps) simp
  then show ?case using Cons by (simp add: encode_log_def option.map_comp comp_def)
qed

lemma decode_log_Nil [simp]: "decode_log [] = Some []"
  by (subst decode_log.simps) simp

lemma encode_log_append [simp]: "encode_log (xs @ ys) = encode_log xs @ encode_log ys"
  by (simp add: encode_log_def)

lemma encode_log_simps [simp]:
  "encode_log [] = []" "encode_log (c # cs) = encode_cmd c @ encode_log cs"
  by (simp_all add: encode_log_def)


text \<open>The log encoding round-trips: decoding the concatenated encodings of any
  sequence of command lines, \<open>nil\<close> and empty arguments included, gives it back.\<close>

lemma log_roundtrip: "decode_log (encode_log cs) = Some cs"
  using decode_log_append [of cs "[]"] by simp

end
