(* ===== verification/Time.thy ===== *)
theory Time
  imports Prelude "HOL-Library.Product_Lexorder"
begin

text \<open>
  \<open>src/pkg/time.go\<close>: the layout constant \<open>YYYY_MM_DD_HH_MM_SS\<close>, and
  \<open>TimeSecondFormat\<close> / \<open>ParseTimeSecondFormat\<close>, which hand that layout to Go's
  \<open>time.Format\<close> and \<open>time.ParseInLocation\<close>.  Go reads a layout as a sequence
  of reference elements (\<open>2006\<close> the year, \<open>01\<close> and \<open>1\<close> the month, \<open>02\<close> and
  \<open>2\<close> the day, \<open>15\<close> the hour, \<open>04\<close>/\<open>4\<close> the minute, \<open>05\<close>/\<open>5\<close> the second)
  and literal bytes; the model follows \<open>nextStdChunk\<close>, \<open>appendInt\<close>, \<open>getnum\<close>,
  \<open>skip\<close> and the final day validation of the standard library for these
  elements.  The other element families (month and weekday names, \<open>06\<close>, \<open>002\<close>,
  12-hour clock, AM/PM, zones, fractions written in the layout) become
  \<open>StdUnsupported\<close>, which formats as nothing and never parses; the repository's
  layout contains none of them (lemma \<open>repo_layout_chunks\<close>).

  A \<open>time.Time\<close> is its calendar reading in the one location the program uses;
  \<open>Before\<close> compares readings lexicographically, which is the order of instants
  in a location without clock changes.
\<close>

record gotime =
  year :: int
  month :: nat
  day :: nat
  hour :: nat
  minute :: nat
  second :: nat
  nanosecond :: nat

definition time_key :: "gotime \<Rightarrow> int \<times> nat \<times> nat \<times> nat \<times> nat \<times> nat \<times> nat" where
  "time_key t = (year t, month t, day t, hour t, minute t, second t, nanosecond t)"

definition Before :: "gotime \<Rightarrow> gotime \<Rightarrow> bool" where
  "Before t u = (time_key t < time_key u)"

definition isLeap :: "int \<Rightarrow> bool" where
  "isLeap y = (y mod 4 = 0 \<and> (y mod 100 \<noteq> 0 \<or> y mod 400 = 0))"

definition daysIn :: "nat \<Rightarrow> int \<Rightarrow> nat" where
  "daysIn m y =
     (if m = 2 then (if isLeap y then 29 else 28)
      else if m = 4 \<or> m = 6 \<or> m = 9 \<or> m = 11 then 30 else 31)"

definition valid_time :: "gotime \<Rightarrow> bool" where
  "valid_time t =
     (1 \<le> month t \<and> month t \<le> 12 \<and> 1 \<le> day t \<and> day t \<le> daysIn (month t) (year t) \<and>
      hour t < 24 \<and> minute t < 60 \<and> second t < 60 \<and> nanosecond t < 10 ^ 9)"

section \<open>Layout elements\<close>

datatype std_chunk =
    StdLit char
  | StdLongYear | StdNumMonth | StdZeroMonth | StdDay | StdZeroDay
  | StdHour | StdMinute | StdZeroMinute | StdSecond | StdZeroSecond
  | StdUnsupported

text \<open>The prefixes at which \<open>nextStdChunk\<close> recognises an element the model does not
  cover.\<close>

definition unsupported_chunk :: "char \<Rightarrow> string \<Rightarrow> bool" where
  "unsupported_chunk c cs =
     ((c = CHR ''0'' \<and> (take 1 cs \<in> {''3'', ''6''} \<or> take 2 cs = ''02'')) \<or>
      c = CHR ''3'' \<or>
      (c = CHR ''J'' \<and> take 2 cs = ''an'') \<or>
      (c = CHR ''M'' \<and> (take 2 cs = ''on'' \<or> take 2 cs = ''ST'')) \<or>
      (c = CHR ''P'' \<and> take 1 cs = ''M'') \<or> (c = CHR ''p'' \<and> take 1 cs = ''m'') \<or>
      ((c = CHR ''-'' \<or> c = CHR ''Z'') \<and> take 2 cs = ''07'') \<or>
      (c = CHR ''_'' \<and> take 1 cs = ''2'') \<or>
      ((c = CHR ''.'' \<or> c = CHR '','') \<and> take 1 cs \<in> {''0'', ''9''}))"

text \<open>\<open>nextStdChunk\<close>, applied until the layout is consumed.  A run of spaces is one
  literal, as \<open>skip\<close> treats it.\<close>

function layout_chunks :: "string \<Rightarrow> std_chunk list" where
  "layout_chunks [] = []"
| "layout_chunks (c # cs) =
     (if unsupported_chunk c cs then StdUnsupported # layout_chunks cs
      else if c = CHR ''0'' \<and> take 1 cs = ''1'' then StdZeroMonth # layout_chunks (drop 1 cs)
      else if c = CHR ''0'' \<and> take 1 cs = ''2'' then StdZeroDay # layout_chunks (drop 1 cs)
      else if c = CHR ''0'' \<and> take 1 cs = ''4'' then StdZeroMinute # layout_chunks (drop 1 cs)
      else if c = CHR ''0'' \<and> take 1 cs = ''5'' then StdZeroSecond # layout_chunks (drop 1 cs)
      else if c = CHR ''1'' then
        (if take 1 cs = ''5'' then StdHour # layout_chunks (drop 1 cs)
         else StdNumMonth # layout_chunks cs)
      else if c = CHR ''2'' then
        (if take 3 cs = ''006'' then StdLongYear # layout_chunks (drop 3 cs)
         else StdDay # layout_chunks cs)
      else if c = CHR ''4'' then StdMinute # layout_chunks cs
      else if c = CHR ''5'' then StdSecond # layout_chunks cs
      else if c = CHR '' '' then StdLit c # layout_chunks (dropWhile (\<lambda>x. x = CHR '' '') cs)
      else StdLit c # layout_chunks cs)"
  by pat_completeness auto
termination
  by (relation "measure length") (auto simp: le_imp_less_Suc length_dropWhile_le)

section \<open>Formatting\<close>

text \<open>\<open>appendInt(b, x, width)\<close> for \<open>x \<ge> 0\<close>: the decimal, zero-padded to \<open>width\<close>,
  with the library's fast paths for two and four digits.\<close>

definition pad :: "nat \<Rightarrow> nat \<Rightarrow> string" where
  "pad w n =
     (if w = 2 \<and> n < 100 then [digit_char (n div 10), digit_char (n mod 10)]
      else if w = 4 \<and> n < 10000 then
        [digit_char (n div 1000), digit_char (n div 100 mod 10), digit_char (n div 10 mod 10),
         digit_char (n mod 10)]
      else replicate (w - length (show_nat n)) CHR ''0'' @ show_nat n)"

fun format_chunk :: "gotime \<Rightarrow> std_chunk \<Rightarrow> string" where
  "format_chunk t (StdLit c) = [c]"
| "format_chunk t StdLongYear =
     (if year t < 0 then CHR ''-'' # pad 4 (nat (- year t)) else pad 4 (nat (year t)))"
| "format_chunk t StdNumMonth = show_nat (month t)"
| "format_chunk t StdZeroMonth = pad 2 (month t)"
| "format_chunk t StdDay = show_nat (day t)"
| "format_chunk t StdZeroDay = pad 2 (day t)"
| "format_chunk t StdHour = pad 2 (hour t)"
| "format_chunk t StdMinute = show_nat (minute t)"
| "format_chunk t StdZeroMinute = pad 2 (minute t)"
| "format_chunk t StdSecond = show_nat (second t)"
| "format_chunk t StdZeroSecond = pad 2 (second t)"
| "format_chunk t StdUnsupported = []"

definition go_format :: "string \<Rightarrow> gotime \<Rightarrow> string" where
  "go_format layout t = concat (map (format_chunk t) (layout_chunks layout))"

section \<open>Parsing\<close>

text \<open>The parse state: the fields read so far; month and day start unset (\<open>-1\<close> in
  Go), the rest at zero.\<close>

record pstate =
  p_year :: int
  p_month :: "nat option"
  p_day :: "nat option"
  p_hour :: nat
  p_min :: nat
  p_sec :: nat
  p_nsec :: nat

datatype time_error = ErrBad | ErrRange string | ErrExtraText | ErrDayRange

definition pstate0 :: pstate where
  "pstate0 = \<lparr>p_year = 0, p_month = None, p_day = None, p_hour = 0, p_min = 0,
              p_sec = 0, p_nsec = 0\<rparr>"

text \<open>\<open>getnum(s, fixed)\<close>: one or two leading digits; exactly two when \<open>fixed\<close>.\<close>

definition getnum :: "string \<Rightarrow> bool \<Rightarrow> (nat \<times> string) option" where
  "getnum s fixed =
     (if s = [] \<or> \<not> isDigit (hd s) then None
      else if length s < 2 \<or> \<not> isDigit (s ! 1) then
        (if fixed then None else Some (digit_val (hd s), tl s))
      else Some (10 * digit_val (hd s) + digit_val (s ! 1), drop 2 s))"

text \<open>A fraction after the seconds element is read even when the layout has none
  (\<open>parseNanoseconds\<close>): at most nine digits count, all of them are consumed.\<close>

definition frac_second :: "string \<Rightarrow> nat \<times> string" where
  "frac_second s =
     (if 2 \<le> length s \<and> (hd s = CHR ''.'' \<or> hd s = CHR '','') \<and> isDigit (s ! 1) then
        let ds = takeWhile isDigit (tl s); fs = take 9 ds
        in (digits_val fs * 10 ^ (9 - length fs), dropWhile isDigit (tl s))
      else (0, s))"

definition num_field ::
  "string \<Rightarrow> bool \<Rightarrow> nat \<Rightarrow> string \<Rightarrow> (nat \<Rightarrow> pstate \<Rightarrow> pstate) \<Rightarrow> pstate
     \<Rightarrow> time_error + string \<times> pstate" where
  "num_field s fixed bound name upd p =
     (case getnum s fixed of
        None \<Rightarrow> Inl ErrBad
      | Some (v, r) \<Rightarrow> if bound \<le> v then Inl (ErrRange name) else Inr (r, upd v p))"

fun parse_chunk :: "std_chunk \<Rightarrow> string \<Rightarrow> pstate \<Rightarrow> time_error + string \<times> pstate" where
  "parse_chunk (StdLit c) s p =
     (if c = CHR '' '' then
        (if s \<noteq> [] \<and> hd s \<noteq> CHR '' '' then Inl ErrBad
         else Inr (dropWhile (\<lambda>x. x = CHR '' '') s, p))
      else if s \<noteq> [] \<and> hd s = c then Inr (tl s, p) else Inl ErrBad)"
| "parse_chunk StdLongYear s p =
     (if length s < 4 \<or> \<not> (\<forall>c\<in>set (take 4 s). isDigit c) then Inl ErrBad
      else Inr (drop 4 s, p\<lparr>p_year := int (digits_val (take 4 s))\<rparr>))"
| "parse_chunk StdNumMonth s p =
     (case getnum s False of
        None \<Rightarrow> Inl ErrBad
      | Some (m, r) \<Rightarrow> if m = 0 \<or> 12 < m then Inl (ErrRange ''month'')
                      else Inr (r, p\<lparr>p_month := Some m\<rparr>))"
| "parse_chunk StdZeroMonth s p =
     (case getnum s True of
        None \<Rightarrow> Inl ErrBad
      | Some (m, r) \<Rightarrow> if m = 0 \<or> 12 < m then Inl (ErrRange ''month'')
                      else Inr (r, p\<lparr>p_month := Some m\<rparr>))"
| "parse_chunk StdDay s p =
     (case getnum s False of None \<Rightarrow> Inl ErrBad | Some (d, r) \<Rightarrow> Inr (r, p\<lparr>p_day := Some d\<rparr>))"
| "parse_chunk StdZeroDay s p =
     (case getnum s True of None \<Rightarrow> Inl ErrBad | Some (d, r) \<Rightarrow> Inr (r, p\<lparr>p_day := Some d\<rparr>))"
| "parse_chunk StdHour s p = num_field s False 24 ''hour'' (\<lambda>v p. p\<lparr>p_hour := v\<rparr>) p"
| "parse_chunk StdMinute s p = num_field s False 60 ''minute'' (\<lambda>v p. p\<lparr>p_min := v\<rparr>) p"
| "parse_chunk StdZeroMinute s p = num_field s True 60 ''minute'' (\<lambda>v p. p\<lparr>p_min := v\<rparr>) p"
| "parse_chunk StdSecond s p =
     (case num_field s False 60 ''second'' (\<lambda>v p. p\<lparr>p_sec := v\<rparr>) p of
        Inl e \<Rightarrow> Inl e
      | Inr (r, q) \<Rightarrow> (let (ns, r') = frac_second r in Inr (r', q\<lparr>p_nsec := ns\<rparr>)))"
| "parse_chunk StdZeroSecond s p =
     (case num_field s True 60 ''second'' (\<lambda>v p. p\<lparr>p_sec := v\<rparr>) p of
        Inl e \<Rightarrow> Inl e
      | Inr (r, q) \<Rightarrow> (let (ns, r') = frac_second r in Inr (r', q\<lparr>p_nsec := ns\<rparr>)))"
| "parse_chunk StdUnsupported s p = Inl ErrBad"

fun parse_chunks :: "std_chunk list \<Rightarrow> string \<Rightarrow> pstate \<Rightarrow> time_error + string \<times> pstate" where
  "parse_chunks [] s p = Inr (s, p)"
| "parse_chunks (c # cs) s p =
     (case parse_chunk c s p of Inl e \<Rightarrow> Inl e | Inr (r, q) \<Rightarrow> parse_chunks cs r q)"

text \<open>\<open>time.ParseInLocation\<close>: all of the value must be consumed, an unset month or
  day is January or the first, and the day must exist in that month.\<close>

definition go_parse :: "string \<Rightarrow> string \<Rightarrow> time_error + gotime" where
  "go_parse layout s =
     (case parse_chunks (layout_chunks layout) s pstate0 of
        Inl e \<Rightarrow> Inl e
      | Inr (r, p) \<Rightarrow>
          if r \<noteq> [] then Inl ErrExtraText
          else let m = (case p_month p of None \<Rightarrow> 1 | Some m \<Rightarrow> m);
                   d = (case p_day p of None \<Rightarrow> 1 | Some d \<Rightarrow> d)
               in if d < 1 \<or> daysIn m (p_year p) < d then Inl ErrDayRange
                  else Inr \<lparr>year = p_year p, month = m, day = d, hour = p_hour p,
                            minute = p_min p, second = p_sec p, nanosecond = p_nsec p\<rparr>)"

section \<open>The repository's functions\<close>

definition YYYY_MM_DD_HH_MM_SS :: string where
  "YYYY_MM_DD_HH_MM_SS = ''2008-01-01 12:00:00''"

definition TimeSecondFormat :: "gotime \<Rightarrow> string" where
  "TimeSecondFormat t = go_format YYYY_MM_DD_HH_MM_SS t"

definition ParseTimeSecondFormat :: "string \<Rightarrow> time_error + gotime" where
  "ParseTimeSecondFormat s = go_parse YYYY_MM_DD_HH_MM_SS s"


section \<open>What the repository's layout parses\<close>

text \<open>The elements that set only the date: literals, month and day elements leave the year and the clock fields as they
  were.\<close>

definition date_only_chunk :: "std_chunk \<Rightarrow> bool" where
  "date_only_chunk c = (case c of StdLit _ \<Rightarrow> True | StdNumMonth \<Rightarrow> True
     | StdZeroMonth \<Rightarrow> True | StdDay \<Rightarrow> True | StdZeroDay \<Rightarrow> True | _ \<Rightarrow> False)"


lemma repo_layout_chunks:
  "layout_chunks YYYY_MM_DD_HH_MM_SS =
     [StdDay, StdLit CHR ''0'', StdLit CHR ''0'', StdLit CHR ''8'', StdLit CHR ''-'',
      StdZeroMonth, StdLit CHR ''-'', StdZeroMonth, StdLit CHR '' '', StdNumMonth, StdDay,
      StdLit CHR '':'', StdLit CHR ''0'', StdLit CHR ''0'', StdLit CHR '':'',
      StdLit CHR ''0'', StdLit CHR ''0'']"
  by (simp add: YYYY_MM_DD_HH_MM_SS_def unsupported_chunk_def)

lemma parse_chunk_date_only:
  assumes "parse_chunk c s p = Inr (r, q)" "date_only_chunk c"
  shows "p_year q = p_year p \<and> p_hour q = p_hour p \<and> p_min q = p_min p \<and>
         p_sec q = p_sec p \<and> p_nsec q = p_nsec p"
  using assms
  by (cases c) (auto simp: date_only_chunk_def split: if_splits option.splits)

lemma parse_chunks_date_only:
  assumes "parse_chunks cs s p = Inr (r, q)" "\<forall>c\<in>set cs. date_only_chunk c"
  shows "p_year q = p_year p \<and> p_hour q = p_hour p \<and> p_min q = p_min p \<and>
         p_sec q = p_sec p \<and> p_nsec q = p_nsec p"
  using assms
proof (induction cs arbitrary: s p)
  case (Cons c cs)
  then obtain r1 q1 where c: "parse_chunk c s p = Inr (r1, q1)"
    and rest: "parse_chunks cs r1 q1 = Inr (r, q)"
    by (auto split: sum.splits)
  show ?case
    using parse_chunk_date_only [OF c] Cons.IH [OF rest] Cons.prems(2) by simp
qed simp

text \<open>Every time the repository's layout yields is midnight of year 0: the layout
  names no year and no clock field.\<close>

lemma ParseTimeSecondFormat_year0:
  assumes "ParseTimeSecondFormat s = Inr t"
  shows "year t = 0 \<and> hour t = 0 \<and> minute t = 0 \<and> second t = 0 \<and> nanosecond t = 0"
proof -
  obtain r p where p: "parse_chunks (layout_chunks YYYY_MM_DD_HH_MM_SS) s pstate0 = Inr (r, p)"
    using assms by (auto simp: ParseTimeSecondFormat_def go_parse_def split: sum.splits)
  have "\<forall>c\<in>set (layout_chunks YYYY_MM_DD_HH_MM_SS). date_only_chunk c"
    by (simp add: repo_layout_chunks date_only_chunk_def)
  from parse_chunks_date_only [OF p this] have "p_year p = 0 \<and> p_hour p = 0 \<and> p_min p = 0 \<and>
      p_sec p = 0 \<and> p_nsec p = 0" by (simp add: pstate0_def)
  with assms p show ?thesis
    by (auto simp: ParseTimeSecondFormat_def go_parse_def Let_def split: if_splits)
qed

lemma year0_Before:
  "year t = 0 \<Longrightarrow> 0 < year now \<Longrightarrow> Before t now"
  by (simp add: Before_def time_key_def)

section \<open>Properties of the time format\<close>

text \<open>
  C11.  An expiry read back with \<open>ParseTimeSecondFormat\<close> is always in the past:
  whatever the string, a successful parse is midnight of year 0, so at any present
  time (a year after 0) the key it is attached to is expired.
\<close>

theorem ParseTimeSecondFormat_in_past:
  assumes "ParseTimeSecondFormat s = Inr t" "0 < year now"
  shows "Before t now"
  using ParseTimeSecondFormat_year0 [OF assms(1)] year0_Before assms(2) by blast

theorem ParseTimeSecondFormat_in_past_witness:
  "ParseTimeSecondFormat ''25008-11-11 1125:00:00'' =
     Inr \<lparr>year = 0, month = 11, day = 25, hour = 0, minute = 0, second = 0, nanosecond = 0\<rparr> \<and>
   0 < year \<lparr>year = 2024, month = 11, day = 25, hour = 13, minute = 7, second = 9, nanosecond = 0\<rparr> \<and>
   Before \<lparr>year = 0, month = 11, day = 25, hour = 0, minute = 0, second = 0, nanosecond = 0\<rparr>
     \<lparr>year = 2024, month = 11, day = 25, hour = 13, minute = 7, second = 9, nanosecond = 0\<rparr>"
proof -
  have p: "ParseTimeSecondFormat ''25008-11-11 1125:00:00'' =
     Inr \<lparr>year = 0, month = 11, day = 25, hour = 0, minute = 0, second = 0, nanosecond = 0\<rparr>"
    by code_simp
  show ?thesis using ParseTimeSecondFormat_in_past [OF p] p by simp
qed

text \<open>
  C12.  \<open>TimeSecondFormat\<close> and \<open>ParseTimeSecondFormat\<close> are not inverse: a valid
  time on one of the days 1 to 9 of any month is written with a one-digit day
  directly before the literal \<open>008\<close>, the parser reads two digits there, and the
  string does not parse.
\<close>

theorem TimeSecondFormat_single_digit_day:
  assumes "valid_time t" "day t < 10"
  shows "ParseTimeSecondFormat (TimeSecondFormat t) = Inl ErrBad"
  using assms
  by (simp add: ParseTimeSecondFormat_def TimeSecondFormat_def go_parse_def go_format_def
      repo_layout_chunks show_nat_single getnum_def isDigit_def digit_char_def)

theorem TimeSecondFormat_single_digit_day_witness:
  "valid_time \<lparr>year = 2024, month = 3, day = 5, hour = 13, minute = 7, second = 9, nanosecond = 0\<rparr> \<and>
   day \<lparr>year = 2024, month = 3, day = 5, hour = 13, minute = 7, second = 9, nanosecond = 0\<rparr> < 10 \<and>
   ParseTimeSecondFormat (TimeSecondFormat
     \<lparr>year = 2024, month = 3, day = 5, hour = 13, minute = 7, second = 9, nanosecond = 0\<rparr>) = Inl ErrBad"
proof -
  have v: "valid_time \<lparr>year = 2024, month = 3, day = 5, hour = 13, minute = 7, second = 9, nanosecond = 0\<rparr>"
    by (simp add: valid_time_def daysIn_def)
  show ?thesis using TimeSecondFormat_single_digit_day [OF v] v by simp
qed

end
