(* ===== verification/Store.thy ===== *)
theory Store
  imports ListEntity Resp Time
begin

text \<open>
  The key-value store (\<open>KVStore\<close> of the \<open>datastore\<close> package): a map from keys to
  values and a parallel map from keys to absolute expiry times.  The repository
  holds two of its methods, \<open>getAsList\<close> and \<open>putAsList\<close>
  (\<open>src/datastore/list.go\<close>), and its iteration \<open>ForEach\<close>
  (\<open>src/datastore/persist.go\<close>), which skips keys whose expiry is past and hands
  every other key to a callback with its value and its expiry.  The command
  handlers the executor runs are not in the repository; they are modelled from
  the specification (\<open>exec_cmd\<close>): expired keys are deleted lazily when a command
  touches them, list commands go through the list entity's methods, a list whose
  last element is popped is removed, a write returns the command line to append to
  the log, and the panics of the list entity (a negative pop count) are \<open>Inl\<close>.
  String values stand for the value types whose code is not in the repository.
\<close>

datatype entity = ListValue list_entity | StringValue bytes

record kvstore =
  data :: "bytes \<rightharpoonup> entity"
  expiredAt :: "bytes \<rightharpoonup> gotime"

definition empty_store :: kvstore where
  "empty_store = \<lparr>data = Map.empty, expiredAt = Map.empty\<rparr>"

text \<open>Go's \<open>string(b)\<close> of a byte slice: \<open>nil\<close> is the empty string.\<close>

definition bstr :: "byteslice \<Rightarrow> bytes" where
  "bstr b = (case b of None \<Rightarrow> [] | Some x \<Rightarrow> x)"

section \<open>Methods in the repository\<close>

definition getAsList :: "bytes \<Rightarrow> kvstore \<Rightarrow> reply + list_entity option" where
  "getAsList k s =
     (case data s k of
        None \<Rightarrow> Inr None
      | Some (ListValue l) \<Rightarrow> Inr (Some l)
      | Some (StringValue _) \<Rightarrow> Inl WrongTypeErrReply)"

definition putAsList :: "bytes \<Rightarrow> list_entity \<Rightarrow> kvstore \<Rightarrow> kvstore" where
  "putAsList k l s = s\<lparr>data := (data s)(k \<mapsto> ListValue l)\<rparr>"

text \<open>
  \<open>ForEach\<close> as the sequence of callback invocations \<open>(key, adapter, expireAt)\<close>.
  Go's map iteration order is unspecified, so the order is the parameter \<open>ks\<close>
  (a duplicate-free listing of the keys); the clock \<open>pkg.TimeNow()\<close> is read as
  \<open>now\<close>.
\<close>

definition ForEach :: "gotime \<Rightarrow> bytes list \<Rightarrow> kvstore \<Rightarrow> (bytes \<times> entity \<times> gotime option) list" where
  "ForEach now ks s =
     concat (map (\<lambda>k. case data s k of
                         None \<Rightarrow> []
                       | Some v \<Rightarrow> (case expiredAt s k of
                                     None \<Rightarrow> [(k, v, None)]
                                   | Some t \<Rightarrow> if Before t now then [] else [(k, v, Some t)])) ks)"

text \<open>\<open>CmdAdapter.ToCmd\<close> of an entity: the list entity's own method, and \<open>set\<close> for a
  string.\<close>

fun entity_ToCmd :: "bytes \<Rightarrow> entity \<Rightarrow> byteslice list" where
  "entity_ToCmd k (ListValue l) = ToCmd l"
| "entity_ToCmd k (StringValue v) = [Some ''set'', Some k, Some v]"

section \<open>The executor's commands\<close>

definition CmdTypeExpireAt :: bytes where
  "CmdTypeExpireAt = ''expireat''"

definition command_names :: "bytes list" where
  "command_names = [''set'', ''get'', ''del'', ''expireat'', ''lpush'', ''rpush'', ''lpop'', ''rpop'',
                    ''lrange'', ''llen'']"

definition ValidCommand :: "bytes \<Rightarrow> bool" where
  "ValidCommand c = (c \<in> set command_names)"

definition del_key :: "bytes \<Rightarrow> kvstore \<Rightarrow> kvstore" where
  "del_key k s = s\<lparr>data := (data s)(k := None), expiredAt := (expiredAt s)(k := None)\<rparr>"

text \<open>Lazy expiry: a key whose expiry is past is removed before a command uses it.\<close>

definition expirePreprocess :: "gotime \<Rightarrow> bytes \<Rightarrow> kvstore \<Rightarrow> kvstore" where
  "expirePreprocess now k s =
     (case expiredAt s k of None \<Rightarrow> s | Some t \<Rightarrow> if Before t now then del_key k s else s)"

definition exec_set :: "bytes \<Rightarrow> byteslice \<Rightarrow> kvstore \<Rightarrow> reply \<times> kvstore" where
  "exec_set k v s =
     (OkReply, s\<lparr>data := (data s)(k \<mapsto> StringValue (bstr v)), expiredAt := (expiredAt s)(k := None)\<rparr>)"

definition exec_get :: "bytes \<Rightarrow> kvstore \<Rightarrow> reply" where
  "exec_get k s =
     (case data s k of
        None \<Rightarrow> NilReply
      | Some (StringValue v) \<Rightarrow> BulkReply (Some v)
      | Some (ListValue _) \<Rightarrow> WrongTypeErrReply)"

definition exec_del :: "bytes \<Rightarrow> kvstore \<Rightarrow> reply \<times> kvstore" where
  "exec_del k s = (case data s k of None \<Rightarrow> (IntReply 0, s) | Some _ \<Rightarrow> (IntReply 1, del_key k s))"

definition exec_expireat :: "bytes \<Rightarrow> byteslice \<Rightarrow> kvstore \<Rightarrow> reply \<times> kvstore" where
  "exec_expireat k ts s =
     (case ParseTimeSecondFormat (bstr ts) of
        Inl _ \<Rightarrow> (SyntaxErrReply, s)
      | Inr t \<Rightarrow> (case data s k of
                   None \<Rightarrow> (IntReply 0, s)
                 | Some _ \<Rightarrow> (IntReply 1, s\<lparr>expiredAt := (expiredAt s)(k \<mapsto> t)\<rparr>)))"

definition exec_push :: "bool \<Rightarrow> bytes \<Rightarrow> byteslice list \<Rightarrow> kvstore \<Rightarrow> go_error + reply \<times> kvstore" where
  "exec_push left k vs s =
     (case getAsList k s of
        Inl r \<Rightarrow> Inr (r, s)
      | Inr lo \<Rightarrow>
          (case (case lo of None \<Rightarrow> newListEntity k [] | Some l \<Rightarrow> Inr l) of
             Inl e \<Rightarrow> Inl e
           | Inr l \<Rightarrow> let l' = fold (if left then LPush else RPush) vs l
                      in Inr (IntReply (Len l'), putAsList k l' s)))"

definition exec_pop :: "bool \<Rightarrow> bytes \<Rightarrow> int \<Rightarrow> kvstore \<Rightarrow> go_error + reply \<times> kvstore" where
  "exec_pop left k cnt s =
     (case getAsList k s of
        Inl r \<Rightarrow> Inr (r, s)
      | Inr None \<Rightarrow> Inr (NilReply, s)
      | Inr (Some l) \<Rightarrow>
          (case (if left then LPop cnt l else RPop cnt l) of
             Inl e \<Rightarrow> Inl e
           | Inr (None, _) \<Rightarrow> Inr (NilReply, s)
           | Inr (Some vs, l') \<Rightarrow>
               Inr (MultiBulkReply vs, if Len l' = 0 then del_key k s else putAsList k l' s)))"

definition exec_lrange :: "bytes \<Rightarrow> int \<Rightarrow> int \<Rightarrow> kvstore \<Rightarrow> reply" where
  "exec_lrange k start stop s =
     (case getAsList k s of
        Inl r \<Rightarrow> r
      | Inr None \<Rightarrow> MultiBulkReply []
      | Inr (Some l) \<Rightarrow> MultiBulkReply (case ListRange start stop l of None \<Rightarrow> [] | Some vs \<Rightarrow> vs))"

definition exec_llen :: "bytes \<Rightarrow> kvstore \<Rightarrow> reply" where
  "exec_llen k s =
     (case getAsList k s of Inl r \<Rightarrow> r | Inr None \<Rightarrow> IntReply 0 | Inr (Some l) \<Rightarrow> IntReply (Len l))"

text \<open>
  A command line checked and decoded into the operation it asks for; \<open>CBad\<close>
  carries the error reply of a line with the wrong number of arguments, an
  unparsable integer, or an unknown name.
\<close>

datatype store_cmd =
    CSet bytes byteslice
  | CGet bytes
  | CDel bytes
  | CExpireAt bytes byteslice
  | CPush bool bytes "byteslice list"
  | CPop bool bytes int
  | CRange bytes int int
  | CLen bytes
  | CBad reply

definition arg_error :: reply where
  "arg_error = ErrReply ''wrong number of arguments''"

definition parse_command :: "bytes \<Rightarrow> byteslice list \<Rightarrow> store_cmd" where
  "parse_command c args =
     (let n = length args; k = bstr (hd args) in
      if args = [] then CBad arg_error
      else if c = ''set'' then (if n = 2 then CSet k (args ! 1) else CBad arg_error)
      else if c = ''get'' then (if n = 1 then CGet k else CBad arg_error)
      else if c = ''del'' then (if n = 1 then CDel k else CBad arg_error)
      else if c = ''expireat'' then (if n = 2 then CExpireAt k (args ! 1) else CBad arg_error)
      else if c = ''lpush'' \<or> c = ''rpush'' then
        (if 2 \<le> n then CPush (c = ''lpush'') k (tl args) else CBad arg_error)
      else if c = ''lpop'' \<or> c = ''rpop'' then
        (if n = 1 then CPop (c = ''lpop'') k 1
         else if n = 2 then
           (case parse_int (bstr (args ! 1)) of
              None \<Rightarrow> CBad SyntaxErrReply
            | Some cnt \<Rightarrow> CPop (c = ''lpop'') k cnt)
         else CBad arg_error)
      else if c = ''lrange'' then
        (if n = 3 then
           (case (parse_int (bstr (args ! 1)), parse_int (bstr (args ! 2))) of
              (Some a, Some b) \<Rightarrow> CRange k a b
            | _ \<Rightarrow> CBad SyntaxErrReply)
         else CBad arg_error)
      else if c = ''llen'' then (if n = 1 then CLen k else CBad arg_error)
      else CBad UnknownErrReply)"

fun cmd_key :: "store_cmd \<Rightarrow> bytes" where
  "cmd_key (CSet k _) = k"
| "cmd_key (CGet k) = k"
| "cmd_key (CDel k) = k"
| "cmd_key (CExpireAt k _) = k"
| "cmd_key (CPush _ k _) = k"
| "cmd_key (CPop _ k _) = k"
| "cmd_key (CRange k _ _) = k"
| "cmd_key (CLen k) = k"
| "cmd_key (CBad _) = []"

fun is_bad :: "store_cmd \<Rightarrow> bool" where
  "is_bad (CBad _) = True"
| "is_bad _ = False"

text \<open>Whether a command that returned reply \<open>r\<close> changed the store, and so is
  appended to the log.\<close>

fun logged_cmd :: "store_cmd \<Rightarrow> reply \<Rightarrow> bool" where
  "logged_cmd (CSet _ _) r = (r = OkReply)"
| "logged_cmd (CDel _) r = (r = IntReply 1)"
| "logged_cmd (CExpireAt _ _) r = (r = IntReply 1)"
| "logged_cmd (CPush _ _ _) r = (case r of IntReply _ \<Rightarrow> True | _ \<Rightarrow> False)"
| "logged_cmd (CPop _ _ _) r = (case r of MultiBulkReply _ \<Rightarrow> True | _ \<Rightarrow> False)"
| "logged_cmd _ r = False"

fun apply_cmd :: "store_cmd \<Rightarrow> kvstore \<Rightarrow> go_error + reply \<times> kvstore" where
  "apply_cmd (CSet k v) s = Inr (exec_set k v s)"
| "apply_cmd (CGet k) s = Inr (exec_get k s, s)"
| "apply_cmd (CDel k) s = Inr (exec_del k s)"
| "apply_cmd (CExpireAt k ts) s = Inr (exec_expireat k ts s)"
| "apply_cmd (CPush left k vs) s = exec_push left k vs s"
| "apply_cmd (CPop left k cnt) s = exec_pop left k cnt s"
| "apply_cmd (CRange k a b) s = Inr (exec_lrange k a b s, s)"
| "apply_cmd (CLen k) s = Inr (exec_llen k s, s)"
| "apply_cmd (CBad r) s = Inr (r, s)"

text \<open>
  One command of the executor at time \<open>now\<close>: the reply, the new store, and the
  command lines the persister appends (the command line itself, its name
  lower-cased, when it changed the store).
\<close>

definition exec_cmd ::
  "gotime \<Rightarrow> bytes \<Rightarrow> byteslice list \<Rightarrow> kvstore \<Rightarrow> go_error + reply \<times> kvstore \<times> byteslice list list" where
  "exec_cmd now c args s =
     (let cmd = parse_command c args
      in case apply_cmd cmd (if is_bad cmd then s else expirePreprocess now (cmd_key cmd) s) of
           Inl e \<Rightarrow> Inl e
         | Inr (r, s') \<Rightarrow> Inr (r, s', if logged_cmd cmd r then [Some c # args] else []))"

section \<open>The store's contract\<close>

text \<open>
  The store as the specification describes it: every live key with its value
  (a list of elements or a string) and its expiry.  \<open>view now s\<close> reads a store
  at time \<open>now\<close>, hiding the keys whose expiry is past; \<open>a_apply\<close> is each
  command on such a map, and \<open>a_exec\<close> the executor's step on it.
\<close>

datatype aentity = AList "byteslice list" | AString bytes

type_synonym astore = "bytes \<rightharpoonup> aentity \<times> gotime option"

fun abs_entity :: "entity \<Rightarrow> aentity" where
  "abs_entity (ListValue l) = AList (list_of l)"
| "abs_entity (StringValue v) = AString v"

definition view :: "gotime \<Rightarrow> kvstore \<Rightarrow> astore" where
  "view now s k =
     (case data s k of
        None \<Rightarrow> None
      | Some v \<Rightarrow> (case expiredAt s k of
                    None \<Rightarrow> Some (abs_entity v, None)
                  | Some t \<Rightarrow> if Before t now then None else Some (abs_entity v, Some t)))"

text \<open>The representation invariant: every list is a well-formed ring under its own
  key and is not empty, and only present keys carry an expiry.\<close>

definition store_inv :: "kvstore \<Rightarrow> bool" where
  "store_inv s \<longleftrightarrow>
     (\<forall>k l. data s k = Some (ListValue l) \<longrightarrow> ring_inv l \<and> key l = k \<and> 0 < size_l l) \<and>
     dom (expiredAt s) \<subseteq> dom (data s)"

definition push_all :: "bool \<Rightarrow> byteslice list \<Rightarrow> byteslice list \<Rightarrow> byteslice list" where
  "push_all left vs xs = (if left then rev vs @ xs else xs @ vs)"

fun a_apply :: "gotime \<Rightarrow> store_cmd \<Rightarrow> astore \<Rightarrow> go_error + reply \<times> astore" where
  "a_apply now (CSet k v) V = Inr (OkReply, V(k \<mapsto> (AString (bstr v), None)))"
| "a_apply now (CGet k) V =
     Inr (case V k of
            None \<Rightarrow> NilReply
          | Some (AString v, _) \<Rightarrow> BulkReply (Some v)
          | Some (AList _, _) \<Rightarrow> WrongTypeErrReply, V)"
| "a_apply now (CDel k) V =
     Inr (case V k of None \<Rightarrow> (IntReply 0, V) | Some _ \<Rightarrow> (IntReply 1, V(k := None)))"
| "a_apply now (CExpireAt k ts) V =
     Inr (case ParseTimeSecondFormat (bstr ts) of
            Inl _ \<Rightarrow> (SyntaxErrReply, V)
          | Inr t \<Rightarrow> (case V k of
                       None \<Rightarrow> (IntReply 0, V)
                     | Some (e, _) \<Rightarrow>
                         (IntReply 1, if Before t now then V(k := None) else V(k \<mapsto> (e, Some t)))))"
| "a_apply now (CPush left k vs) V =
     Inr (case V k of
            None \<Rightarrow> let xs' = push_all left vs [] in (IntReply (int (length xs')), V(k \<mapsto> (AList xs', None)))
          | Some (AString _, _) \<Rightarrow> (WrongTypeErrReply, V)
          | Some (AList xs, e) \<Rightarrow>
              let xs' = push_all left vs xs in (IntReply (int (length xs')), V(k \<mapsto> (AList xs', e))))"
| "a_apply now (CPop left k cnt) V =
     (case V k of
        None \<Rightarrow> Inr (NilReply, V)
      | Some (AString _, _) \<Rightarrow> Inr (WrongTypeErrReply, V)
      | Some (AList xs, e) \<Rightarrow>
          (case deque_step (if left then LPopOp cnt else RPopOp cnt) xs of
             Inl err \<Rightarrow> Inl err
           | Inr (None, _) \<Rightarrow> Inr (NilReply, V)
           | Inr (Some vs, xs') \<Rightarrow>
               Inr (MultiBulkReply vs, if xs' = [] then V(k := None) else V(k \<mapsto> (AList xs', e)))))"
| "a_apply now (CRange k a b) V =
     Inr (case V k of
            None \<Rightarrow> MultiBulkReply []
          | Some (AString _, _) \<Rightarrow> WrongTypeErrReply
          | Some (AList xs, _) \<Rightarrow> MultiBulkReply (case range_spec a b xs of None \<Rightarrow> [] | Some vs \<Rightarrow> vs),
          V)"
| "a_apply now (CLen k) V =
     Inr (case V k of
            None \<Rightarrow> IntReply 0
          | Some (AString _, _) \<Rightarrow> WrongTypeErrReply
          | Some (AList xs, _) \<Rightarrow> IntReply (int (length xs)), V)"
| "a_apply now (CBad r) V = Inr (r, V)"

definition a_exec ::
  "gotime \<Rightarrow> bytes \<Rightarrow> byteslice list \<Rightarrow> astore \<Rightarrow> go_error + reply \<times> astore \<times> byteslice list list" where
  "a_exec now c args V =
     (let cmd = parse_command c args
      in case a_apply now cmd V of
           Inl e \<Rightarrow> Inl e
         | Inr (r, V') \<Rightarrow> Inr (r, V', if logged_cmd cmd r then [Some c # args] else []))"

text \<open>The one hypothesis the refinement needs: a push carries a value (as every
  parsed push does) and does not take a list beyond \<open>maxCap\<close> elements (there the
  list entity overwrites, see \<open>LPush_at_maxCap\<close>).\<close>

fun a_fits :: "store_cmd \<Rightarrow> astore \<Rightarrow> bool" where
  "a_fits (CPush _ k vs) V =
     (vs \<noteq> [] \<and>
      (case V k of Some (AList xs, _) \<Rightarrow> length xs + length vs \<le> maxCap | _ \<Rightarrow> length vs \<le> maxCap))"
| "a_fits _ V = True"

text \<open>A key is live at \<open>now\<close> when it carries no expiry that is past.\<close>


definition live_key :: "gotime \<Rightarrow> bytes \<Rightarrow> kvstore \<Rightarrow> bool" where
  "live_key now k s = (case expiredAt s k of None \<Rightarrow> True | Some t \<Rightarrow> \<not> Before t now)"

section \<open>Reading the store through its view\<close>

lemma view_expirePreprocess [simp]: "view now (expirePreprocess now k s) = view now s"
  by (rule ext) (auto simp: view_def expirePreprocess_def del_key_def split: option.splits)

lemma live_expirePreprocess: "live_key now k (expirePreprocess now k s)"
  by (auto simp: live_key_def expirePreprocess_def del_key_def split: option.splits)

lemma store_inv_del_key: "store_inv s \<Longrightarrow> store_inv (del_key k s)"
  by (auto simp: store_inv_def del_key_def)

lemma store_inv_expirePreprocess: "store_inv s \<Longrightarrow> store_inv (expirePreprocess now k s)"
  by (auto simp: expirePreprocess_def store_inv_del_key split: option.splits)

lemma view_live:
  "live_key now k s \<Longrightarrow> view now s k = map_option (\<lambda>v. (abs_entity v, expiredAt s k)) (data s k)"
  by (auto simp: view_def live_key_def split: option.splits)

lemma view_del_key [simp]: "view now (del_key k s) = (view now s)(k := None)"
  by (rule ext) (auto simp: view_def del_key_def split: option.splits)

lemma view_put:
  "live_key now k s \<Longrightarrow>
   view now (s\<lparr>data := (data s)(k \<mapsto> v)\<rparr>) = (view now s)(k \<mapsto> (abs_entity v, expiredAt s k))"
  by (rule ext) (auto simp: view_def live_key_def split: option.splits)

lemma view_putAsList:
  "live_key now k s \<Longrightarrow>
   view now (putAsList k l s) = (view now s)(k \<mapsto> (AList (list_of l), expiredAt s k))"
  by (simp add: putAsList_def view_put)

lemma store_invD:
  "store_inv s \<Longrightarrow> data s k = Some (ListValue l) \<Longrightarrow> ring_inv l \<and> key l = k \<and> 0 < size_l l"
  by (simp add: store_inv_def)

lemma store_inv_putAsList:
  "store_inv s \<Longrightarrow> ring_inv l \<Longrightarrow> key l = k \<Longrightarrow> 0 < size_l l \<Longrightarrow> store_inv (putAsList k l s)"
  by (auto simp: store_inv_def putAsList_def)

lemma Len_list_of: "ring_inv l \<Longrightarrow> Len l = int (length (list_of l))"
  by (simp add: Len_def length_list_of)

lemma key_LPush [simp]: "key (LPush v l) = key l"
  by (simp add: LPush_def grow_def Let_def)

lemma key_RPush [simp]: "key (RPush v l) = key l"
  by (simp add: RPush_def grow_def Let_def)

lemma fold_LPush:
  assumes "ring_inv l" "size_l l + length vs \<le> maxCap"
  shows "ring_inv (fold LPush vs l) \<and> list_of (fold LPush vs l) = rev vs @ list_of l"
  using assms
proof (induction vs arbitrary: l)
  case (Cons v vs)
  have lt: "size_l l < maxCap" using Cons.prems(2) by simp
  from LPush_correct [OF Cons.prems(1) lt] have l1: "ring_inv (LPush v l)"
    and xs: "list_of (LPush v l) = v # list_of l" by auto
  have "size_l (LPush v l) = Suc (size_l l)"
    using length_list_of [OF l1] length_list_of [OF Cons.prems(1)] xs by simp
  then have "size_l (LPush v l) + length vs \<le> maxCap" using Cons.prems(2) by simp
  from Cons.IH [OF l1 this] xs show ?case by simp
qed simp

lemma key_fold_push [simp]: "key (fold (if left then LPush else RPush) vs l) = key l"
  by (induction vs arbitrary: l) auto

lemma fold_push:
  assumes "ring_inv l" "size_l l + length vs \<le> maxCap"
  shows "ring_inv (fold (if left then LPush else RPush) vs l) \<and>
         list_of (fold (if left then LPush else RPush) vs l) = push_all left vs (list_of l)"
  using fold_LPush [OF assms] fold_RPush [OF assms] by (simp add: push_all_def)

lemma fold_push_size:
  assumes "ring_inv l" "size_l l + length vs \<le> maxCap" "vs \<noteq> []"
  shows "0 < size_l (fold (if left then LPush else RPush) vs l)"
proof -
  from fold_push [OF assms(1,2)] have "ring_inv (fold (if left then LPush else RPush) vs l)"
    "list_of (fold (if left then LPush else RPush) vs l) = push_all left vs (list_of l)"
    by auto
  then have "size_l (fold (if left then LPush else RPush) vs l) = length (push_all left vs (list_of l))"
    using length_list_of by metis
  then show ?thesis using assms(3) by (simp add: push_all_def)
qed

lemma apply_push:
  assumes inv: "store_inv s" and live: "live_key now k s" and ne: "vs \<noteq> []"
    and fits: "a_fits (CPush left k vs) (view now s)"
  shows "map_sum id (apsnd (view now)) (exec_push left k vs s) = a_apply now (CPush left k vs) (view now s) \<and>
         (\<forall>r s'. exec_push left k vs s = Inr (r, s') \<longrightarrow> store_inv s')"
proof (cases "data s k")
  case None
  define l0 where "l0 = \<lparr>key = k, buffer = replicate defaultCap None, head = 0, tail = 0, size_l = 0,
                        cap = defaultCap\<rparr>"
  define l' where "l' = fold (if left then LPush else RPush) vs l0"
  have vk: "view now s k = None" using view_live [OF live] None by simp
  have e: "expiredAt s k = None" using inv None by (auto simp: store_inv_def)
  have r0: "ring_inv l0" "list_of l0 = []" "size_l l0 = 0" "key l0 = k"
    using fresh_ring [of k] by (simp_all add: l0_def)
  have sz: "size_l l0 + length vs \<le> maxCap" using fits vk r0 by simp
  from fold_push [OF r0(1) sz] have l': "ring_inv l'" "list_of l' = push_all left vs []"
    using r0 by (simp_all add: l'_def)
  have pos: "0 < size_l l'" using fold_push_size [OF r0(1) sz ne] by (simp add: l'_def)
  have run: "exec_push left k vs s = Inr (IntReply (Len l'), putAsList k l' s)"
    using None by (simp add: exec_push_def getAsList_def newListEntity_Nil l0_def l'_def Let_def)
  show ?thesis
    using run vk e l' pos r0 live
    by (simp add: view_putAsList Len_list_of store_inv_putAsList [OF inv] l'_def Let_def)
next
  case (Some v)
  show ?thesis
  proof (cases v)
    case (StringValue x)
    then show ?thesis using Some view_live [OF live] inv
      by (simp add: exec_push_def getAsList_def)
  next
    case (ListValue l)
    define l' where "l' = fold (if left then LPush else RPush) vs l"
    have r: "ring_inv l" "key l = k" "0 < size_l l" using store_invD [OF inv] Some ListValue by auto
    have vk: "view now s k = Some (AList (list_of l), expiredAt s k)"
      using view_live [OF live] Some ListValue by simp
    have sz: "size_l l + length vs \<le> maxCap" using fits vk length_list_of [OF r(1)] by simp
    from fold_push [OF r(1) sz] have l': "ring_inv l'" "list_of l' = push_all left vs (list_of l)"
      by (simp_all add: l'_def)
    have pos: "0 < size_l l'" using fold_push_size [OF r(1) sz ne] by (simp add: l'_def)
    have run: "exec_push left k vs s = Inr (IntReply (Len l'), putAsList k l' s)"
      using Some ListValue by (simp add: exec_push_def getAsList_def l'_def Let_def)
    show ?thesis
      using run vk l' pos r live
      by (simp add: view_putAsList Len_list_of store_inv_putAsList [OF inv] l'_def Let_def)
  qed
qed

lemma pop_refines:
  assumes "ring_inv l"
  shows "map_sum id (apsnd list_of) (if left then LPop cnt l else RPop cnt l) =
           deque_step (if left then LPopOp cnt else RPopOp cnt) (list_of l) \<and>
         (\<forall>r l'. (if left then LPop cnt l else RPop cnt l) = Inr (r, l') \<longrightarrow>
                 ring_inv l' \<and> key l' = key l)"
proof (cases left)
  case True
  then show ?thesis using LPop_refines [OF assms, of cnt] by (simp only: if_True) blast
next
  case False
  then show ?thesis using RPop_refines [OF assms, of cnt] by (simp only: if_False) blast
qed

lemma apply_pop:
  assumes inv: "store_inv s" and live: "live_key now k s"
  shows "map_sum id (apsnd (view now)) (exec_pop left k cnt s) = a_apply now (CPop left k cnt) (view now s) \<and>
         (\<forall>r s'. exec_pop left k cnt s = Inr (r, s') \<longrightarrow> store_inv s')"
proof (cases "data s k")
  case None
  then show ?thesis using view_live [OF live] inv by (simp add: exec_pop_def getAsList_def)
next
  case (Some v)
  show ?thesis
  proof (cases v)
    case (StringValue x)
    then show ?thesis using Some view_live [OF live] inv by (simp add: exec_pop_def getAsList_def)
  next
    case (ListValue l)
    define P where "P = (if left then LPop cnt l else RPop cnt l)"
    have r: "ring_inv l" "key l = k" using store_invD [OF inv] Some ListValue by auto
    have vk: "view now s k = Some (AList (list_of l), expiredAt s k)"
      using view_live [OF live] Some ListValue by simp
    have ex: "exec_pop left k cnt s =
                (case P of Inl e \<Rightarrow> Inl e | Inr (None, _) \<Rightarrow> Inr (NilReply, s)
                 | Inr (Some vs, l') \<Rightarrow>
                     Inr (MultiBulkReply vs, if Len l' = 0 then del_key k s else putAsList k l' s))"
      using Some ListValue by (simp add: exec_pop_def getAsList_def P_def)
    from pop_refines [OF r(1), of left cnt] have ref:
      "map_sum id (apsnd list_of) P = deque_step (if left then LPopOp cnt else RPopOp cnt) (list_of l)"
      and pres: "\<And>x l'. P = Inr (x, l') \<Longrightarrow> ring_inv l' \<and> key l' = k"
      using r(2) by (auto simp: P_def)
    show ?thesis
    proof (cases P)
      case (Inl e)
      then show ?thesis using ex vk by (simp add: ref [symmetric] del: deque_step.simps)
    next
      case (Inr x)
      then obtain res l' where x: "P = Inr (res, l')" by (cases x) auto
      have l': "ring_inv l'" "key l' = k" using pres [OF x] by auto
      have len: "Len l' = 0 \<longleftrightarrow> list_of l' = []" using Len_list_of [OF l'(1)] by simp
      have pos: "list_of l' \<noteq> [] \<Longrightarrow> 0 < size_l l'"
        using length_list_of [OF l'(1)] by (metis length_greater_0_conv)
      show ?thesis
      proof (cases res)
        case None
        then show ?thesis using ex vk x inv by (simp add: ref [symmetric] del: deque_step.simps)
      next
        case (Some vs)
        have a: "a_apply now (CPop left k cnt) (view now s) =
                   Inr (MultiBulkReply vs, if list_of l' = [] then (view now s)(k := None)
                                           else (view now s)(k \<mapsto> (AList (list_of l'), expiredAt s k)))"
          using vk x Some by (simp add: ref [symmetric] del: deque_step.simps)
        have e: "exec_pop left k cnt s =
                   Inr (MultiBulkReply vs, if Len l' = 0 then del_key k s else putAsList k l' s)"
          using ex x Some by simp
        show ?thesis
        proof (cases "list_of l' = []")
          case True
          then show ?thesis using a e len inv by (simp add: store_inv_del_key)
        next
          case False
          then show ?thesis
            using a e len pos l' inv by (simp add: view_putAsList [OF live] store_inv_putAsList)
        qed
      qed
    qed
  qed
qed


lemma view_set_string:
  "view now (s\<lparr>data := (data s)(k \<mapsto> v), expiredAt := (expiredAt s)(k := None)\<rparr>) =
     (view now s)(k \<mapsto> (abs_entity v, None))"
  by (rule ext) (auto simp: view_def split: option.splits)

lemma view_set_expiry:
  "data s k = Some v \<Longrightarrow>
   view now (s\<lparr>expiredAt := (expiredAt s)(k \<mapsto> t)\<rparr>) =
     (view now s)(k := if Before t now then None else Some (abs_entity v, Some t))"
  by (rule ext) (auto simp: view_def split: option.splits)

lemma apply_expireat:
  assumes inv: "store_inv s" and live: "live_key now k s"
  shows "map_sum id (apsnd (view now)) (apply_cmd (CExpireAt k ts) s) =
           a_apply now (CExpireAt k ts) (view now s) \<and>
         (\<forall>r s'. apply_cmd (CExpireAt k ts) s = Inr (r, s') \<longrightarrow> store_inv s')"
proof (cases "ParseTimeSecondFormat (bstr ts)")
  case (Inl e)
  then show ?thesis using inv by (simp add: exec_expireat_def)
next
  case (Inr t)
  show ?thesis
  proof (cases "data s k")
    case None
    then show ?thesis using Inr inv view_live [OF live] by (simp add: exec_expireat_def)
  next
    case (Some v)
    have "store_inv (s\<lparr>expiredAt := (expiredAt s)(k \<mapsto> t)\<rparr>)"
      using inv Some by (auto simp: store_inv_def)
    then show ?thesis
      using Inr Some view_live [OF live] by (simp add: exec_expireat_def view_set_expiry)
  qed
qed

lemma apply_read:
  assumes inv: "store_inv s" and live: "live_key now k s"
  shows "apply_cmd (CGet k) s = map_sum id (\<lambda>(r, V). (r, s)) (a_apply now (CGet k) (view now s)) \<and>
         apply_cmd (CLen k) s = map_sum id (\<lambda>(r, V). (r, s)) (a_apply now (CLen k) (view now s)) \<and>
         apply_cmd (CRange k a b) s =
           map_sum id (\<lambda>(r, V). (r, s)) (a_apply now (CRange k a b) (view now s))"
proof (cases "data s k")
  case None
  then show ?thesis using view_live [OF live]
    by (simp add: exec_get_def exec_llen_def exec_lrange_def getAsList_def)
next
  case (Some v)
  then show ?thesis
  proof (cases v)
    case (ListValue l)
    then have "ring_inv l" using store_invD [OF inv] Some by blast
    then show ?thesis using Some ListValue view_live [OF live]
      by (simp add: exec_get_def exec_llen_def exec_lrange_def getAsList_def Len_list_of
          ListRange_refines)
  qed (use view_live [OF live] in \<open>simp add: exec_get_def exec_llen_def exec_lrange_def getAsList_def\<close>)
qed

lemma apply_refines:
  assumes inv: "store_inv s" and live: "live_key now (cmd_key cmd) s"
    and fits: "a_fits cmd (view now s)"
  shows "map_sum id (apsnd (view now)) (apply_cmd cmd s) = a_apply now cmd (view now s) \<and>
         (\<forall>r s'. apply_cmd cmd s = Inr (r, s') \<longrightarrow> store_inv s')"
proof (cases cmd)
  case (CSet k v)
  have "store_inv (s\<lparr>data := (data s)(k \<mapsto> StringValue (bstr v)), expiredAt := (expiredAt s)(k := None)\<rparr>)"
    using inv by (auto simp: store_inv_def)
  then show ?thesis using CSet by (simp add: exec_set_def view_set_string)
next
  case (CDel k)
  have lk: "live_key now k s" using live CDel by simp
  show ?thesis using CDel inv view_live [OF lk]
    by (cases "data s k") (simp_all add: exec_del_def store_inv_del_key)
next
  case (CExpireAt k ts)
  have lk: "live_key now k s" using live CExpireAt by simp
  show ?thesis using apply_expireat [OF inv lk, of ts] CExpireAt by simp
next
  case (CPush left k vs)
  have lk: "live_key now k s" using live CPush by simp
  have ne: "vs \<noteq> []" using fits CPush by simp
  have ft: "a_fits (CPush left k vs) (view now s)" using fits CPush by simp
  show ?thesis using apply_push [OF inv lk ne ft] CPush by simp
next
  case (CPop left k cnt)
  have lk: "live_key now k s" using live CPop by simp
  show ?thesis using apply_pop [OF inv lk, of left cnt] CPop by simp
next
  case (CGet k)
  have lk: "live_key now k s" using live CGet by simp
  show ?thesis using conjunct1 [OF apply_read [OF inv lk]] CGet inv by (cases "a_apply now (CGet k) (view now s)") auto
next
  case (CLen k)
  have lk: "live_key now k s" using live CLen by simp
  show ?thesis using conjunct1 [OF conjunct2 [OF apply_read [OF inv lk]]] CLen inv
    by (cases "a_apply now (CLen k) (view now s)") auto
next
  case (CRange k a b)
  have lk: "live_key now k s" using live CRange by simp
  show ?thesis using conjunct2 [OF conjunct2 [OF apply_read [OF inv lk, of a b]]] CRange inv
    by (cases "a_apply now (CRange k a b) (view now s)") auto
next
  case (CBad r)
  then show ?thesis using inv by simp
qed


text \<open>One executor step on the store refines the contract's step on its view, and
  keeps the invariant.\<close>

lemma exec_refines:
  assumes inv: "store_inv s" and fits: "a_fits (parse_command c args) (view now s)"
  shows "map_sum id (\<lambda>(r, s', L). (r, view now s', L)) (exec_cmd now c args s) =
           a_exec now c args (view now s) \<and>
         (\<forall>r s' L. exec_cmd now c args s = Inr (r, s', L) \<longrightarrow> store_inv s')"
proof (cases "is_bad (parse_command c args)")
  case True
  then obtain r where "parse_command c args = CBad r" by (cases "parse_command c args") auto
  then show ?thesis using inv by (simp add: exec_cmd_def a_exec_def)
next
  case False
  define cmd where "cmd = parse_command c args"
  define s1 where "s1 = expirePreprocess now (cmd_key cmd) s"
  have v1: "view now s1 = view now s" by (simp add: s1_def)
  have i1: "store_inv s1" using inv by (simp add: s1_def store_inv_expirePreprocess)
  have l1: "live_key now (cmd_key cmd) s1" by (simp add: s1_def live_expirePreprocess)
  from apply_refines [OF i1 l1] fits v1 have
    ref: "map_sum id (apsnd (view now)) (apply_cmd cmd s1) = a_apply now cmd (view now s)"
    and pres: "\<And>r s'. apply_cmd cmd s1 = Inr (r, s') \<Longrightarrow> store_inv s'"
    by (auto simp: cmd_def)
  have ex: "exec_cmd now c args s =
              (case apply_cmd cmd s1 of Inl e \<Rightarrow> Inl e
               | Inr (r, s') \<Rightarrow> Inr (r, s', if logged_cmd cmd r then [Some c # args] else []))"
    unfolding exec_cmd_def Let_def cmd_def s1_def using False by simp
  have ax: "a_exec now c args (view now s) =
              (case a_apply now cmd (view now s) of Inl e \<Rightarrow> Inl e
               | Inr (r, V') \<Rightarrow> Inr (r, V', if logged_cmd cmd r then [Some c # args] else []))"
    unfolding a_exec_def Let_def cmd_def by simp
  show ?thesis
  proof (cases "apply_cmd cmd s1")
    case (Inl e)
    then have "a_apply now cmd (view now s) = Inl e" using ref by simp
    then show ?thesis using ex ax Inl by simp
  next
    case (Inr x)
    then obtain r s' where x: "apply_cmd cmd s1 = Inr (r, s')" by (cases x) auto
    then have "a_apply now cmd (view now s) = Inr (r, view now s')" using ref by simp
    then show ?thesis using ex ax x pres [OF x] by simp
  qed
qed

lemma store_inv_empty [simp]: "store_inv empty_store"
  by (simp add: store_inv_def empty_store_def)

lemma view_empty [simp]: "view now empty_store = Map.empty"
  by (rule ext) (simp add: view_def empty_store_def)


text \<open>A command the executor does not log left the contract's store unchanged.\<close>

lemma a_apply_unlogged:
  assumes "a_apply now cmd V = Inr (r, V')" "\<not> logged_cmd cmd r"
  shows "V' = V"
proof (cases cmd)
  case (CPop left k cnt)
  then show ?thesis using assms
    by (auto simp del: deque_step.simps split: option.split_asm aentity.split_asm sum.split_asm prod.split_asm)
next
  case (CExpireAt k ts)
  then show ?thesis using assms by (auto split: option.split_asm sum.split_asm if_split_asm)
next
  case (CPush left k vs)
  then show ?thesis using assms by (auto simp: Let_def split: option.split_asm aentity.split_asm)
next
  case (CDel k)
  then show ?thesis using assms by (auto split: option.split_asm)
qed (use assms in \<open>auto split: option.split_asm aentity.split_asm\<close>)

end
