(* ===== verification/Trigger.thy ===== *)
theory Trigger
  imports Store
begin

text \<open>
  \<open>src/database/trigger.go\<close>: the gateway between the handler and the executor.
  \<open>DBTrigger.Do\<close> rejects a command line of fewer than two elements, lower-cases the
  command name, rejects a name the executor does not know, and otherwise sends a
  \<open>Command\<close> (context, name, arguments, a fresh reply channel) to the executor and
  waits for its reply.  \<open>Close\<close> closes the executor once.

  The executor (\<open>database.NewDBExecutor\<close>, not in the repository) is a single
  goroutine that takes one command at a time from its channel, runs it on the
  store (\<open>exec_cmd\<close>), lets the persister append what it logged, and answers on the
  command's channel.  Run by one caller, \<open>Do\<close> is therefore the function
  \<open>trigger_Do\<close> below; the interleaving of many callers is the step relation of
  the \<open>Executor\<close> theory.
\<close>

section \<open>Validation\<close>

text \<open>\<open>strings.ToLower\<close> on the ASCII letters (command names are ASCII; the
  Unicode case mappings of other bytes are not modelled).\<close>

definition ascii_lower :: "char \<Rightarrow> char" where
  "ascii_lower c =
     (let n = (of_char c :: nat) in if 65 \<le> n \<and> n \<le> 90 then char_of (n + 32) else c)"

definition ToLower :: "bytes \<Rightarrow> bytes" where
  "ToLower s = map ascii_lower s"

text \<open>\<open>fmt\<close>'s \<open>%v\<close> of a \<open>[][]byte\<close>: each slice as its byte values in brackets.\<close>

definition fmt_bytes :: "byteslice \<Rightarrow> string" where
  "fmt_bytes b = ''['' @ concat (map (\<lambda>(i, c). (if i = 0 then [] else '' '') @ show_nat (of_char c))
                                  (enumerate 0 (bstr b))) @ '']''"

definition fmt_lines :: "byteslice list \<Rightarrow> string" where
  "fmt_lines line = ''['' @ concat (map (\<lambda>(i, b). (if i = 0 then [] else '' '') @ fmt_bytes b)
                                     (enumerate 0 line)) @ '']''"

record command =
  cmd_type :: bytes
  cmd_args :: "byteslice list"

text \<open>Lines 22 to 37 of \<open>Do\<close>: the early error replies, or the command to send.\<close>

definition Do_validate :: "byteslice list \<Rightarrow> reply + command" where
  "Do_validate cmdLine =
     (if length cmdLine < 2 then Inl (ErrReply (''invalid cmd line: '' @ fmt_lines cmdLine))
      else let cmdType = ToLower (bstr (hd cmdLine))
           in if \<not> ValidCommand cmdType
              then Inl (ErrReply (''unknown cmd '' @ [CHR 0x27] @ bstr (hd cmdLine) @ [CHR 0x27]))
              else Inr \<lparr>cmd_type = cmdType, cmd_args = tl cmdLine\<rparr>)"

text \<open>The executor's handling of one command: run it and return the reply with the
  command lines to append.\<close>

definition exec_command ::
  "gotime \<Rightarrow> command \<Rightarrow> kvstore \<Rightarrow> go_error + reply \<times> kvstore \<times> byteslice list list" where
  "exec_command now cmd s = exec_cmd now (cmd_type cmd) (cmd_args cmd) s"

text \<open>\<open>Do\<close> for a single caller: validation, then the executor's step.\<close>

definition trigger_Do ::
  "gotime \<Rightarrow> byteslice list \<Rightarrow> kvstore \<Rightarrow> go_error + reply \<times> kvstore \<times> byteslice list list" where
  "trigger_Do now cmdLine s =
     (case Do_validate cmdLine of
        Inl r \<Rightarrow> Inr (r, s, [])
      | Inr cmd \<Rightarrow> exec_command now cmd s)"

text \<open>The same on the store's contract.\<close>

definition a_Do ::
  "gotime \<Rightarrow> byteslice list \<Rightarrow> astore \<Rightarrow> go_error + reply \<times> astore \<times> byteslice list list" where
  "a_Do now cmdLine V =
     (case Do_validate cmdLine of
        Inl r \<Rightarrow> Inr (r, V, [])
      | Inr cmd \<Rightarrow> a_exec now (cmd_type cmd) (cmd_args cmd) V)"

text \<open>The capacity hypothesis of a command line, read on the contract.\<close>

definition line_fits :: "byteslice list \<Rightarrow> astore \<Rightarrow> bool" where
  "line_fits cmdLine V =
     (case Do_validate cmdLine of
        Inl _ \<Rightarrow> True
      | Inr cmd \<Rightarrow> a_fits (parse_command (cmd_type cmd) (cmd_args cmd)) V)"

section \<open>Closing\<close>

text \<open>\<open>Close\<close> through \<open>sync.Once\<close>: the first call closes the executor, later calls
  do nothing.\<close>

record trigger_state =
  once_done :: bool
  executor_closes :: nat

definition trigger_Close :: "trigger_state \<Rightarrow> trigger_state" where
  "trigger_Close t =
     (if once_done t then t else t\<lparr>once_done := True, executor_closes := executor_closes t + 1\<rparr>)"


section \<open>Lemmas\<close>

lemma ascii_lower_idem [simp]: "ascii_lower (ascii_lower c) = ascii_lower c"
  by (simp add: ascii_lower_def Let_def of_char_of)

lemma ToLower_idem [simp]: "ToLower (ToLower s) = ToLower s"
  by (simp add: ToLower_def comp_def)

lemma Do_validate_ok:
  "Do_validate cmdLine = Inr cmd \<longleftrightarrow>
     2 \<le> length cmdLine \<and> ValidCommand (ToLower (bstr (hd cmdLine))) \<and>
     cmd = \<lparr>cmd_type = ToLower (bstr (hd cmdLine)), cmd_args = tl cmdLine\<rparr>"
  by (auto simp: Do_validate_def Let_def)

lemma Do_validate_err:
  "(\<exists>m. Do_validate cmdLine = Inl (ErrReply m)) \<longleftrightarrow>
     \<not> (2 \<le> length cmdLine \<and> ValidCommand (ToLower (bstr (hd cmdLine))))"
  by (auto simp: Do_validate_def Let_def)

text \<open>The lower-case command names the rewrite emits pass \<open>ToLower\<close> unchanged.\<close>

lemma ToLower_set: "ToLower ''set'' = ''set''"
  by code_simp

lemma ToLower_rpush: "ToLower ''rpush'' = ''rpush''"
  by code_simp

lemma Do_validate_relog:
  assumes "Do_validate cmdLine = Inr cmd"
  shows "Do_validate (Some (cmd_type cmd) # cmd_args cmd) = Inr cmd"
  using assms unfolding Do_validate_ok by (auto simp: bstr_def)

lemma trigger_Do_set_fresh:
  assumes "data s k = None" "expiredAt s k = None"
  shows "trigger_Do now [Some ''set'', Some k, Some v] s =
           Inr (OkReply, s\<lparr>data := (data s)(k \<mapsto> StringValue v)\<rparr>, [[Some ''set'', Some k, Some v]])"
proof -
  have "Do_validate [Some ''set'', Some k, Some v] = Inr \<lparr>cmd_type = ''set'', cmd_args = [Some k, Some v]\<rparr>"
    by (simp add: Do_validate_ok bstr_def ToLower_set ValidCommand_def command_names_def)
  moreover have "parse_command ''set'' [Some k, Some v] = CSet k (Some v)"
    by (simp add: parse_command_def bstr_def)
  ultimately show ?thesis using assms
    by (simp add: trigger_Do_def exec_command_def exec_cmd_def expirePreprocess_def exec_set_def bstr_def
                  fun_upd_idem)
qed

text \<open>\<open>Do\<close> refines the contract's step and keeps the store invariant.\<close>

lemma trigger_refines:
  assumes inv: "store_inv s" and fits: "line_fits cmdLine (view now s)"
  shows "map_sum id (\<lambda>(r, s', L). (r, view now s', L)) (trigger_Do now cmdLine s) =
           a_Do now cmdLine (view now s) \<and>
         (\<forall>r s' L. trigger_Do now cmdLine s = Inr (r, s', L) \<longrightarrow> store_inv s')"
proof (cases "Do_validate cmdLine")
  case (Inl r)
  then show ?thesis using inv by (simp add: trigger_Do_def a_Do_def)
next
  case (Inr cmd)
  have "a_fits (parse_command (cmd_type cmd) (cmd_args cmd)) (view now s)"
    using fits Inr by (simp add: line_fits_def)
  from exec_refines [OF inv this] show ?thesis
    using Inr by (simp add: trigger_Do_def a_Do_def exec_command_def)
qed


section \<open>Properties of the trigger\<close>



text \<open>
  C14.  Command names are case-insensitive: a known command with arguments,
  spelled in any letter case, has the same reply, store and appended log line as
  its lower-case spelling.
\<close>

theorem trigger_case_insensitive:
  assumes "ValidCommand (ToLower name)" "args \<noteq> []"
  shows "trigger_Do now (Some name # args) s = trigger_Do now (Some (ToLower name) # args) s"
  using assms by (simp add: trigger_Do_def Do_validate_def bstr_def)

theorem trigger_case_insensitive_witness:
  "trigger_Do \<lparr>year = 2024, month = 11, day = 25, hour = 13, minute = 7, second = 9, nanosecond = 0\<rparr>
     [Some ''RPush'', Some ''k'', Some ''v''] empty_store =
   trigger_Do \<lparr>year = 2024, month = 11, day = 25, hour = 13, minute = 7, second = 9, nanosecond = 0\<rparr>
     [Some ''rpush'', Some ''k'', Some ''v''] empty_store"
proof -
  have "ValidCommand (ToLower ''RPush'')" and "ToLower ''RPush'' = ''rpush''"
    by code_simp+
  then show ?thesis using trigger_case_insensitive [of "''RPush''" "[Some ''k'', Some ''v'']"] by simp
qed




end
