(* ===== verification/Handler.thy ===== *)
theory Handler
  imports Trigger
begin

text \<open>
  \<open>src/handler/handler.go\<close>: the handler reads a byte stream through the protocol
  parser, which yields a sequence of droplets (a decoded request, a protocol
  error with the error reply to send, or the end of the stream), and hands each
  request to the database (\<open>DB.Do\<close>, the trigger), writing every reply back.
  \<open>Start\<close> runs the same loop over the persister's reloader at startup, with the
  loading context so that replayed commands are not appended again; \<open>forkDB\<close> of
  the rewrite uses it on a prefix of the log.  \<open>Handle\<close> registers a connection
  unless the handler is closed, and \<open>Close\<close> (once) marks it closed and closes
  every registered connection, the database and the persister.

  The parser is not in the repository; \<open>parse_stream\<close> models it from the
  specification on top of \<open>decode_cmd\<close>: a malformed request gives one error
  droplet and ends the stream.  The database is a parameter of the handler's
  loop (a function from its state and a command line to a reply), as the Go
  handler holds it through the \<open>DB\<close> interface; the trigger instantiates it.
  Cancellation of the context is not modelled: the loading context never ends.
\<close>

datatype stream_err = ErrEOF | ErrProtocol string

record droplet =
  d_reply :: "reply option"
  d_err :: "stream_err option"

definition Terminated :: "droplet \<Rightarrow> bool" where
  "Terminated d = (d_err d = Some ErrEOF)"

definition eof_droplet :: droplet where
  "eof_droplet = \<lparr>d_reply = None, d_err = Some ErrEOF\<rparr>"

definition request_droplet :: "byteslice list \<Rightarrow> droplet" where
  "request_droplet args = \<lparr>d_reply = Some (MultiBulkReply args), d_err = None\<rparr>"

definition protocol_error_droplet :: droplet where
  "protocol_error_droplet =
     \<lparr>d_reply = Some (ErrReply ''protocol error''), d_err = Some (ErrProtocol ''malformed request'')\<rparr>"

function parse_stream :: "string \<Rightarrow> droplet list" where
  "parse_stream s =
     (if s = [] then [eof_droplet]
      else case decode_cmd s of
        None \<Rightarrow> [protocol_error_droplet, eof_droplet]
      | Some (args, r) \<Rightarrow> request_droplet args # parse_stream r)"
  by pat_completeness auto
termination
  by (relation "measure length") (auto dest: decode_cmd_shorter)

declare parse_stream.simps [simp del]

text \<open>The database as the handler sees it: \<open>Do\<close> returns a reply, possibly \<open>nil\<close>.\<close>

type_synonym 's db_do = "'s \<Rightarrow> byteslice list \<Rightarrow> go_error + reply option \<times> 's"

text \<open>\<open>handleDroplet\<close>: the error it returns, the replies it writes, the database
  state after it.\<close>

definition handleDroplet ::
  "'s db_do \<Rightarrow> droplet \<Rightarrow> 's \<Rightarrow> go_error + stream_err option \<times> reply list \<times> 's" where
  "handleDroplet db d s =
     (if Terminated d then Inr (d_err d, [], s)
      else if d_err d \<noteq> None then
        (case d_reply d of None \<Rightarrow> Inl NilDereference | Some r \<Rightarrow> Inr (None, [r], s))
      else case d_reply d of
        None \<Rightarrow> Inr (None, [], s)
      | Some (MultiBulkReply args) \<Rightarrow>
          (case db s args of
             Inl e \<Rightarrow> Inl e
           | Inr (Some r, s') \<Rightarrow> Inr (None, [r], s')
           | Inr (None, s') \<Rightarrow> Inr (None, [UnknownErrReply], s'))
      | Some _ \<Rightarrow> Inr (None, [], s))"

text \<open>\<open>handleStream\<close>: droplets until \<open>handleDroplet\<close> reports an error.\<close>

fun handleStream :: "'s db_do \<Rightarrow> droplet list \<Rightarrow> 's \<Rightarrow> go_error + reply list \<times> 's" where
  "handleStream db [] s = Inr ([], s)"
| "handleStream db (d # ds) s =
     (case handleDroplet db d s of
        Inl e \<Rightarrow> Inl e
      | Inr (Some _, out, s') \<Rightarrow> Inr (out, s')
      | Inr (None, out, s') \<Rightarrow>
          (case handleStream db ds s' of Inl e \<Rightarrow> Inl e | Inr (out', s'') \<Rightarrow> Inr (out @ out', s'')))"

text \<open>The trigger as the handler's database during loading: the executor runs the
  command, and nothing is appended (loading context, or the rewrite's fake
  persister).\<close>

definition loading_Do :: "gotime \<Rightarrow> kvstore db_do" where
  "loading_Do now s cmdLine = map_sum id (\<lambda>(r, s', _). (Some r, s')) (trigger_Do now cmdLine s)"

text \<open>\<open>Start\<close>: the reloader's bytes (\<open>None\<close> when \<open>Reloader\<close> fails, which
  \<open>Start\<close> returns as its error) are replayed into the store.\<close>

definition Start :: "gotime \<Rightarrow> bytes option \<Rightarrow> kvstore \<Rightarrow> go_error + bool \<times> kvstore" where
  "Start now reloader s =
     (case reloader of
        None \<Rightarrow> Inr (True, s)
      | Some bs \<Rightarrow> map_sum id (\<lambda>(_, s'). (False, s')) (handleStream (loading_Do now) (parse_stream bs) s))"

text \<open>Replaying a sequence of command lines through the trigger.\<close>

fun replay :: "gotime \<Rightarrow> byteslice list list \<Rightarrow> kvstore \<Rightarrow> go_error + kvstore" where
  "replay now [] s = Inr s"
| "replay now (c # cs) s =
     (case trigger_Do now c s of Inl e \<Rightarrow> Inl e | Inr (_, s', _) \<Rightarrow> replay now cs s')"

text \<open>The replay on the store's contract, and the capacity hypothesis along it.\<close>

fun a_replay :: "gotime \<Rightarrow> byteslice list list \<Rightarrow> astore \<Rightarrow> go_error + astore" where
  "a_replay now [] V = Inr V"
| "a_replay now (c # cs) V =
     (case a_Do now c V of Inl e \<Rightarrow> Inl e | Inr (_, V', _) \<Rightarrow> a_replay now cs V')"

fun replay_fits :: "gotime \<Rightarrow> byteslice list list \<Rightarrow> astore \<Rightarrow> bool" where
  "replay_fits now [] V = True"
| "replay_fits now (c # cs) V =
     (line_fits c V \<and>
      (case a_Do now c V of Inl _ \<Rightarrow> True | Inr (_, V', _) \<Rightarrow> replay_fits now cs V'))"

section \<open>Connections and closing\<close>

record handler_state =
  h_once :: bool
  h_close :: bool
  conns :: "nat list"
  closed_conns :: "nat list"
  db_closes :: nat
  persister_closes :: nat

text \<open>\<open>Handle\<close>: a connection is registered, and served, only while the handler
  is open.\<close>

definition Handle :: "nat \<Rightarrow> handler_state \<Rightarrow> handler_state \<times> bool" where
  "Handle conn h = (if h_close h then (h, False) else (h\<lparr>conns := conns h @ [conn]\<rparr>, True))"

definition handler_Close :: "handler_state \<Rightarrow> handler_state" where
  "handler_Close h =
     (if h_once h then h
      else h\<lparr>h_once := True, h_close := True, closed_conns := closed_conns h @ conns h, conns := [],
             db_closes := db_closes h + 1, persister_closes := persister_closes h + 1\<rparr>)"

text \<open>Any sequence of connection arrivals and close calls, from a fresh handler.\<close>

datatype handler_op = HHandle nat | HClose

fun handler_run :: "handler_op list \<Rightarrow> handler_state \<Rightarrow> handler_state" where
  "handler_run [] h = h"
| "handler_run (HHandle c # ops) h = handler_run ops (fst (Handle c h))"
| "handler_run (HClose # ops) h = handler_run ops (handler_Close h)"

definition handler0 :: handler_state where
  "handler0 = \<lparr>h_once = False, h_close = False, conns = [], closed_conns = [], db_closes = 0,
               persister_closes = 0\<rparr>"


section \<open>The handler's loop over an encoded log\<close>

lemma parse_stream_Nil [simp]: "parse_stream [] = [eof_droplet]"
  by (subst parse_stream.simps) simp

lemma parse_stream_encode:
  "parse_stream (encode_log cs @ r) = map request_droplet cs @ parse_stream r"
proof (induction cs)
  case (Cons c cs)
  have "parse_stream (encode_cmd c @ encode_log cs @ r) = request_droplet c # parse_stream (encode_log cs @ r)"
    by (subst parse_stream.simps) simp
  then show ?case using Cons by simp
qed simp

lemma handleDroplet_request:
  "handleDroplet db (request_droplet args) s =
     (case db s args of
        Inl e \<Rightarrow> Inl e
      | Inr (Some r, s') \<Rightarrow> Inr (None, [r], s')
      | Inr (None, s') \<Rightarrow> Inr (None, [UnknownErrReply], s'))"
  by (simp add: handleDroplet_def request_droplet_def Terminated_def)

lemma handleDroplet_eof [simp]: "handleDroplet db eof_droplet s = Inr (Some ErrEOF, [], s)"
  by (simp add: handleDroplet_def eof_droplet_def Terminated_def)

text \<open>Each request before the end of the stream gets one reply; nothing after the
  end is read.\<close>

lemma handleStream_requests:
  "handleStream db (map request_droplet cs @ eof_droplet # rest) s =
   handleStream db (map request_droplet cs @ [eof_droplet]) s \<and>
   (\<forall>out s'. handleStream db (map request_droplet cs @ [eof_droplet]) s = Inr (out, s') \<longrightarrow>
             length out = length cs)"
proof (induction cs arbitrary: s)
  case (Cons c cs)
  show ?case
    using Cons [of "snd (projr (db s c))"]
    by (auto simp: handleDroplet_request split: sum.splits option.splits prod.splits)
qed simp

lemma replay_handleStream:
  "map_sum id snd (handleStream (loading_Do now) (map request_droplet cs @ [eof_droplet]) s) =
   replay now cs s"
proof (induction cs arbitrary: s)
  case (Cons c cs)
  show ?case
  proof (cases "trigger_Do now c s")
    case (Inl e)
    then show ?thesis by (simp add: handleDroplet_request loading_Do_def)
  next
    case (Inr x)
    then obtain r s' L where x: "trigger_Do now c s = Inr (r, s', L)" by (cases x) auto
    then have d: "loading_Do now s c = Inr (Some r, s')" by (simp add: loading_Do_def)
    have IH: "map_sum id snd (handleStream (loading_Do now) (map request_droplet cs @ [eof_droplet]) s') =
              replay now cs s'" by (rule Cons.IH)
    show ?thesis
      using x d IH
      by (cases "handleStream (loading_Do now) (map request_droplet cs @ [eof_droplet]) s'")
         (auto simp: handleDroplet_request)
  qed
qed simp

lemma Start_encode:
  "Start now (Some (encode_log cs)) s = map_sum id (Pair False) (replay now cs s)"
proof -
  define H where "H = handleStream (loading_Do now) (map request_droplet cs @ [eof_droplet]) s"
  have p: "parse_stream (encode_log cs) = map request_droplet cs @ [eof_droplet]"
    using parse_stream_encode [of cs "[]"] by simp
  have "Start now (Some (encode_log cs)) s = map_sum id (\<lambda>(_, s'). (False, s')) H"
    by (simp add: Start_def p H_def)
  also have "\<dots> = map_sum id (Pair False) (map_sum id snd H)"
    by (cases H) auto
  also have "\<dots> = map_sum id (Pair False) (replay now cs s)"
    using replay_handleStream [of now cs s] by (simp add: H_def)
  finally show ?thesis .
qed

lemma replay_refines:
  assumes "store_inv s" "replay_fits now cs (view now s)"
  shows "map_sum id (view now) (replay now cs s) = a_replay now cs (view now s) \<and>
         (\<forall>s'. replay now cs s = Inr s' \<longrightarrow> store_inv s')"
  using assms
proof (induction cs arbitrary: s)
  case (Cons c cs)
  have fits: "line_fits c (view now s)" using Cons.prems(2) by simp
  from trigger_refines [OF Cons.prems(1) fits] have
    ref: "map_sum id (\<lambda>(r, s', L). (r, view now s', L)) (trigger_Do now c s) = a_Do now c (view now s)"
    and pres: "\<And>r s' L. trigger_Do now c s = Inr (r, s', L) \<Longrightarrow> store_inv s'"
    by blast+
  show ?case
  proof (cases "trigger_Do now c s")
    case (Inl e)
    then have "a_Do now c (view now s) = Inl e" using ref by simp
    then show ?thesis using Inl by simp
  next
    case (Inr x)
    then obtain r s' L where x: "trigger_Do now c s = Inr (r, s', L)" by (cases x) auto
    then have a: "a_Do now c (view now s) = Inr (r, view now s', L)" using ref by simp
    have "replay_fits now cs (view now s')" using Cons.prems(2) a by simp
    from Cons.IH [OF pres [OF x] this] show ?thesis using x a by simp
  qed
qed simp


text \<open>The invariant of the handler's connection state under any run: the two
  flags agree, the database and persister have been closed once after a close
  and never before, and no connection stays registered after a close.\<close>

lemma handler_run_inv:
  assumes "h_close h = h_once h" "db_closes h = (if h_once h then 1 else 0)"
    "persister_closes h = db_closes h" "h_close h \<longrightarrow> conns h = []"
  shows "h_close (handler_run ops h) = (h_once h \<or> HClose \<in> set ops) \<and>
         h_once (handler_run ops h) = (h_once h \<or> HClose \<in> set ops) \<and>
         db_closes (handler_run ops h) = (if h_once h \<or> HClose \<in> set ops then 1 else 0) \<and>
         persister_closes (handler_run ops h) = db_closes (handler_run ops h) \<and>
         (h_once h \<or> HClose \<in> set ops \<longrightarrow> conns (handler_run ops h) = [])"
  using assms
proof (induction ops arbitrary: h)
  case (Cons op ops)
  show ?case
  proof (cases op)
    case (HHandle c)
    then show ?thesis using Cons.IH [of "fst (Handle c h)"] Cons.prems by (auto simp: Handle_def)
  next
    case HClose
    then show ?thesis using Cons.IH [of "handler_Close h"] Cons.prems by (auto simp: handler_Close_def)
  qed
qed simp

text \<open>The command line a step logs is a redo record: replayed on the store the step
  started from, it reaches the store the step produced, within the capacity
  hypothesis when the step was.\<close>

lemma a_Do_logged:
  assumes "a_Do now cmdLine V = Inr (r, V', L)"
  shows "a_replay now L V = Inr V' \<and> (line_fits cmdLine V \<longrightarrow> replay_fits now L V)"
proof (cases "Do_validate cmdLine")
  case (Inl x)
  then show ?thesis using assms by (simp add: a_Do_def)
next
  case (Inr cmd)
  define pc where "pc = parse_command (cmd_type cmd) (cmd_args cmd)"
  have relog: "a_Do now (Some (cmd_type cmd) # cmd_args cmd) V = a_Do now cmdLine V"
    using Do_validate_relog [OF Inr] Inr by (simp add: a_Do_def)
  have fits: "line_fits (Some (cmd_type cmd) # cmd_args cmd) V = line_fits cmdLine V"
    using Do_validate_relog [OF Inr] Inr by (simp add: line_fits_def)
  have ex: "(case a_apply now pc V of Inl e \<Rightarrow> Inl e
             | Inr (r, V') \<Rightarrow> Inr (r, V', if logged_cmd pc r then [Some (cmd_type cmd) # cmd_args cmd] else []))
           = Inr (r, V', L)"
    using assms Inr unfolding a_Do_def a_exec_def Let_def pc_def by simp
  then obtain r' V'' where ap: "a_apply now pc V = Inr (r', V'')"
    by (auto split: sum.split_asm)
  have res: "r = r' \<and> V' = V'' \<and> L = (if logged_cmd pc r' then [Some (cmd_type cmd) # cmd_args cmd] else [])"
    using ex ap by (cases "logged_cmd pc r'") auto
  show ?thesis
  proof (cases "logged_cmd pc r'")
    case True
    then show ?thesis using res relog fits assms by simp
  next
    case False
    then show ?thesis using res a_apply_unlogged [OF ap False] by simp
  qed
qed

section \<open>Properties of the handler\<close>

text \<open>
  C15.  Reloading an append-only file through \<open>Start\<close> (parser, handler,
  trigger, executor) has the effect on the store that the contract gives its
  commands, in file order, and leaves a well-formed store: the persisted log is
  replayed exactly, provided no push takes a list past \<open>maxCap\<close>.
\<close>

theorem Start_refines:
  assumes "store_inv s" "replay_fits now cs (view now s)"
  shows "map_sum id (\<lambda>(err, s'). (err, view now s')) (Start now (Some (encode_log cs)) s) =
           map_sum id (Pair False) (a_replay now cs (view now s)) \<and>
         (\<forall>err s'. Start now (Some (encode_log cs)) s = Inr (err, s') \<longrightarrow> store_inv s')"
proof -
  from replay_refines [OF assms] have
    r: "map_sum id (view now) (replay now cs s) = a_replay now cs (view now s)"
    and p: "\<And>s'. replay now cs s = Inr s' \<Longrightarrow> store_inv s'" by blast+
  show ?thesis
  proof (cases "replay now cs s")
    case (Inl e)
    then have "a_replay now cs (view now s) = Inl e" using r by simp
    then show ?thesis using Inl by (simp add: Start_encode)
  next
    case (Inr s')
    then have "a_replay now cs (view now s) = Inr (view now s')" using r by simp
    then show ?thesis using Inr p by (simp add: Start_encode)
  qed
qed

theorem Start_refines_witness:
  "map_sum id (\<lambda>(err, s'). (err, view
       \<lparr>year = 2024, month = 11, day = 25, hour = 13, minute = 7, second = 9, nanosecond = 0\<rparr> s'))
     (Start \<lparr>year = 2024, month = 11, day = 25, hour = 13, minute = 7, second = 9, nanosecond = 0\<rparr>
        (Some (encode_log [[Some ''rpush'', Some ''k'', Some ''a''], [Some ''LPUSH'', Some ''k'', Some ''b'']]))
        empty_store) =
   map_sum id (Pair False)
     (a_replay \<lparr>year = 2024, month = 11, day = 25, hour = 13, minute = 7, second = 9, nanosecond = 0\<rparr>
        [[Some ''rpush'', Some ''k'', Some ''a''], [Some ''LPUSH'', Some ''k'', Some ''b'']]
        (view \<lparr>year = 2024, month = 11, day = 25, hour = 13, minute = 7, second = 9, nanosecond = 0\<rparr>
           empty_store))"
proof -
  have f: "replay_fits \<lparr>year = 2024, month = 11, day = 25, hour = 13, minute = 7, second = 9, nanosecond = 0\<rparr>
     [[Some ''rpush'', Some ''k'', Some ''a''], [Some ''LPUSH'', Some ''k'', Some ''b'']]
     (view \<lparr>year = 2024, month = 11, day = 25, hour = 13, minute = 7, second = 9, nanosecond = 0\<rparr>
        empty_store)"
    by code_simp
  show ?thesis using Start_refines [OF store_inv_empty f] by blast
qed

text \<open>
  C16.  The handler answers every request of a stream exactly once, whatever the
  database answers (a \<open>nil\<close> reply becomes the unknown-error reply), and reads
  nothing after the end-of-stream droplet.
\<close>

theorem handleStream_one_reply:
  assumes "handleStream db (map request_droplet cs @ eof_droplet # rest) s = Inr (out, s')"
  shows "length out = length cs"
proof -
  from handleStream_requests [of db cs rest s] have
    e: "handleStream db (map request_droplet cs @ eof_droplet # rest) s =
        handleStream db (map request_droplet cs @ [eof_droplet]) s"
    and l: "\<And>out s'. handleStream db (map request_droplet cs @ [eof_droplet]) s = Inr (out, s') \<Longrightarrow>
                      length out = length cs"
    by blast+
  show ?thesis using l [of out s'] e assms by simp
qed

theorem handleStream_one_reply_witness:
  "handleStream (\<lambda>(n::nat) args. Inr (if n = 0 then None else Some OkReply, n + 1))
     (map request_droplet [[Some ''get'', Some ''k''], [Some ''get'', Some ''j'']] @
      eof_droplet # [request_droplet [Some ''del'', Some ''k'']]) 0 = Inr ([UnknownErrReply, OkReply], 2) \<and>
   length [UnknownErrReply, OkReply] = length [[Some ''get'', Some ''k''], [Some ''get'', Some ''j'']]"
proof -
  have h: "handleStream (\<lambda>(n::nat) args. Inr (if n = 0 then None else Some OkReply, n + 1))
     (map request_droplet [[Some ''get'', Some ''k''], [Some ''get'', Some ''j'']] @
      eof_droplet # [request_droplet [Some ''del'', Some ''k'']]) 0 = Inr ([UnknownErrReply, OkReply], 2)"
    by (simp add: handleDroplet_request)
  show ?thesis using handleStream_one_reply [OF h] h by simp
qed

text \<open>
  C17.  \<open>Close\<close> is exactly-once: whatever sequence of connections and close calls
  reaches a fresh handler, the database and the persister are closed once if
  \<open>Close\<close> was called and never otherwise, and after a close no connection is
  left registered (later connections are refused).
\<close>

theorem handler_close_once:
  "db_closes (handler_run ops handler0) = (if HClose \<in> set ops then 1 else 0) \<and>
   persister_closes (handler_run ops handler0) = (if HClose \<in> set ops then 1 else 0) \<and>
   (HClose \<in> set ops \<longrightarrow> conns (handler_run ops handler0) = [])"
  using handler_run_inv [of handler0 ops] by (simp add: handler0_def)

theorem handler_close_once_witness:
  "db_closes (handler_run [HHandle 1, HClose, HHandle 2, HClose] handler0) = 1 \<and>
   persister_closes (handler_run [HHandle 1, HClose, HHandle 2, HClose] handler0) = 1 \<and>
   conns (handler_run [HHandle 1, HClose, HHandle 2, HClose] handler0) = []"
  using handler_close_once [of "[HHandle 1, HClose, HHandle 2, HClose]"] by simp




end
