(* ===== verification/Rewrite.thy ===== *)
theory Rewrite
  imports Handler
begin

text \<open>
  \<open>src/persist/aof_rewrite.go\<close>: compaction of the append-only file while live
  writes continue.  \<open>startRewrite\<close> (under the persister's lock) syncs the file,
  records its size \<open>L\<close> and creates a temporary file; \<open>doRewrite\<close> (no lock)
  replays the first \<open>L\<close> bytes into a throw-away store (\<open>forkDB\<close>, through the
  same handler and trigger as a reload) and writes, for every key \<open>ForEach\<close>
  visits, its reconstruction command and, if it expires, an \<open>expireat\<close> command;
  \<open>endRewrite\<close> (under the lock) appends the bytes from offset \<open>L\<close> on to the
  temporary file and renames it over the log.

  The file system is a map from paths to contents (\<open>files\<close>).  The I/O results
  the code cannot decide (the fsync, the name \<open>os.CreateTemp\<close> picks, the rename)
  are inputs; a failed \<open>os.Stat\<close>, whose error the code ignores, dereferences
  \<open>nil\<close> and is the panic \<open>NilDereference\<close>.  Live writes are the persister's
  append of the command lines an executed command logs (not in the repository:
  modelled from the specification).  Writes to the temporary file never fail in
  the model; the code ignores their errors (a finding).

  The concurrency with live traffic is the step relation \<open>aof_step\<close>; the
  invariant \<open>log_inv\<close> is proved for every state \<open>aof_reachable\<close> from an
  empty log by rule induction, one lemma per step rule.  From it: a reload after
  any interleaving restores the live store, the rewritten file is equivalent to
  the prefix it replaces, and a rebuilt rewrite can always finish.
\<close>

record persister =
  aofFileName :: string
  files :: "string \<rightharpoonup> bytes"

datatype rw_error = ErrSync | ErrCreateTemp | ErrOpen

text \<open>The persister's append of logged command lines (under its lock).\<close>

definition persist_append :: "byteslice list list \<Rightarrow> persister \<Rightarrow> persister" where
  "persist_append L p =
     (case files p (aofFileName p) of
        None \<Rightarrow> p
      | Some c \<Rightarrow> p\<lparr>files := (files p)(aofFileName p \<mapsto> c @ encode_log L)\<rparr>)"

text \<open>\<open>startRewrite\<close>: \<open>sync_ok\<close> is the result of \<open>Sync\<close>, \<open>tmp\<close> the name
  \<open>os.CreateTemp\<close> tries (it must not exist).\<close>

definition startRewrite ::
  "bool \<Rightarrow> string \<Rightarrow> persister \<Rightarrow> go_error + (rw_error + string \<times> nat) \<times> persister" where
  "startRewrite sync_ok tmp p =
     (if \<not> sync_ok then Inr (Inl ErrSync, p)
      else case files p (aofFileName p) of
        None \<Rightarrow> Inl NilDereference
      | Some c \<Rightarrow>
          if files p tmp \<noteq> None then Inr (Inl ErrCreateTemp, p)
          else Inr (Inr (tmp, length c), p\<lparr>files := (files p)(tmp \<mapsto> [])\<rparr>))"

text \<open>\<open>forkDB\<close>: the first \<open>fileSize\<close> bytes of the log replayed by \<open>Start\<close> into
  a new store, at time \<open>now\<close>.\<close>

definition forkDB :: "gotime \<Rightarrow> nat \<Rightarrow> persister \<Rightarrow> go_error + (rw_error + kvstore)" where
  "forkDB now fileSize p =
     (case files p (aofFileName p) of
        None \<Rightarrow> Inr (Inl ErrOpen)
      | Some c \<Rightarrow>
          (case Start now (Some (take fileSize c)) empty_store of
             Inl e \<Rightarrow> Inl e
           | Inr (_, s) \<Rightarrow> Inr (Inr s)))"

text \<open>The callback of \<open>doRewrite\<close>, as the command lines it writes for the
  invocations of \<open>ForEach\<close>.\<close>

definition rewrite_cmds :: "(bytes \<times> entity \<times> gotime option) list \<Rightarrow> byteslice list list" where
  "rewrite_cmds visits =
     concat (map (\<lambda>(k, e, ex). entity_ToCmd k e #
                    (case ex of None \<Rightarrow> []
                     | Some t \<Rightarrow> [[Some CmdTypeExpireAt, Some k, Some (TimeSecondFormat t)]])) visits)"

text \<open>\<open>doRewrite\<close>: \<open>ks\<close> is the order in which Go's map iteration visits the keys of
  the forked store.\<close>

definition doRewrite ::
  "gotime \<Rightarrow> bytes list \<Rightarrow> string \<Rightarrow> nat \<Rightarrow> persister \<Rightarrow> go_error + (rw_error + persister)" where
  "doRewrite now ks tmp fileSize p =
     (case forkDB now fileSize p of
        Inl e \<Rightarrow> Inl e
      | Inr (Inl err) \<Rightarrow> Inr (Inl err)
      | Inr (Inr s) \<Rightarrow>
          let old = (case files p tmp of None \<Rightarrow> [] | Some c \<Rightarrow> c)
          in Inr (Inr (p\<lparr>files := (files p)(tmp \<mapsto> old @ encode_log (rewrite_cmds (ForEach now ks s)))\<rparr>)))"

text \<open>\<open>endRewrite\<close>: \<open>rename_ok\<close> is the result of \<open>os.Rename\<close>, whose error the code
  ignores; the log is reopened in either case.\<close>

definition endRewrite :: "bool \<Rightarrow> string \<Rightarrow> nat \<Rightarrow> persister \<Rightarrow> rw_error + persister" where
  "endRewrite rename_ok tmp fileSize p =
     (case files p (aofFileName p) of
        None \<Rightarrow> Inl ErrOpen
      | Some c \<Rightarrow>
          let t = (case files p tmp of None \<Rightarrow> [] | Some x \<Rightarrow> x) @ drop fileSize c
          in if rename_ok then Inr (p\<lparr>files := (files p)(tmp := None, aofFileName p \<mapsto> t)\<rparr>)
             else Inr (p\<lparr>files := (files p)(tmp \<mapsto> t)\<rparr>))"

text \<open>\<open>rewriteAOF\<close> run without interference: the three phases in sequence.\<close>

definition rewriteAOF ::
  "bool \<Rightarrow> string \<Rightarrow> bool \<Rightarrow> gotime \<Rightarrow> bytes list \<Rightarrow> persister
     \<Rightarrow> go_error + (rw_error + unit) \<times> persister" where
  "rewriteAOF sync_ok tmp0 rename_ok now ks p =
     (case startRewrite sync_ok tmp0 p of
        Inl e \<Rightarrow> Inl e
      | Inr (Inl err, p1) \<Rightarrow> Inr (Inl err, p1)
      | Inr (Inr (tmp, fsize), p1) \<Rightarrow>
          (case doRewrite now ks tmp fsize p1 of
             Inl e \<Rightarrow> Inl e
           | Inr (Inl err) \<Rightarrow> Inr (Inl err, p1)
           | Inr (Inr p2) \<Rightarrow>
               (case endRewrite rename_ok tmp fsize p2 of
                  Inl err \<Rightarrow> Inr (Inl err, p2)
                | Inr p3 \<Rightarrow> Inr (Inr (), p3))))"

section \<open>Live traffic interleaved with a rewrite\<close>

datatype rw_phase = RwIdle | RwStarted string nat | RwRebuilt string nat

record aof_system =
  pers :: persister
  live :: kvstore
  phase :: rw_phase

text \<open>
  One step of the system: a live command executed at time \<open>now\<close> and its log
  lines appended, or one phase of a rewrite.  The rebuild is one step: it reads
  only the first \<open>L\<close> bytes of the log, which appends never change, and writes
  only the temporary file, so interleaving appends inside it changes nothing it
  reads or writes.  Times are after year 0.  A live command satisfies the
  capacity hypothesis of the list entity (\<open>line_fits\<close>).
\<close>

inductive aof_step :: "aof_system \<Rightarrow> aof_system \<Rightarrow> bool" where
  live_cmd:
    "\<lbrakk>0 < year now; line_fits cmdLine (view now (live \<sigma>));
      trigger_Do now cmdLine (live \<sigma>) = Inr (r, s', L)\<rbrakk>
     \<Longrightarrow> aof_step \<sigma> (\<sigma>\<lparr>live := s', pers := persist_append L (pers \<sigma>)\<rparr>)"
| start:
    "\<lbrakk>phase \<sigma> = RwIdle; startRewrite sync_ok tmp (pers \<sigma>) = Inr (Inr (tmp', fsize), p')\<rbrakk>
     \<Longrightarrow> aof_step \<sigma> (\<sigma>\<lparr>pers := p', phase := RwStarted tmp' fsize\<rparr>)"
| start_fail:
    "\<lbrakk>phase \<sigma> = RwIdle; startRewrite sync_ok tmp (pers \<sigma>) = Inr (Inl err, p')\<rbrakk>
     \<Longrightarrow> aof_step \<sigma> (\<sigma>\<lparr>pers := p'\<rparr>)"
| rebuild:
    "\<lbrakk>phase \<sigma> = RwStarted tmp fsize; 0 < year now; forkDB now fsize (pers \<sigma>) = Inr (Inr s);
      distinct ks; set ks = dom (data s); doRewrite now ks tmp fsize (pers \<sigma>) = Inr (Inr p')\<rbrakk>
     \<Longrightarrow> aof_step \<sigma> (\<sigma>\<lparr>pers := p', phase := RwRebuilt tmp fsize\<rparr>)"
| rebuild_fail:
    "\<lbrakk>phase \<sigma> = RwStarted tmp fsize; doRewrite now ks tmp fsize (pers \<sigma>) = Inr (Inl err)\<rbrakk>
     \<Longrightarrow> aof_step \<sigma> (\<sigma>\<lparr>phase := RwIdle\<rparr>)"
| finish:
    "\<lbrakk>phase \<sigma> = RwRebuilt tmp fsize; endRewrite rename_ok tmp fsize (pers \<sigma>) = Inr p'\<rbrakk>
     \<Longrightarrow> aof_step \<sigma> (\<sigma>\<lparr>pers := p', phase := RwIdle\<rparr>)"
| finish_fail:
    "\<lbrakk>phase \<sigma> = RwRebuilt tmp fsize; endRewrite rename_ok tmp fsize (pers \<sigma>) = Inl err\<rbrakk>
     \<Longrightarrow> aof_step \<sigma> (\<sigma>\<lparr>phase := RwIdle\<rparr>)"

text \<open>Every expiry a store holds was read by \<open>ParseTimeSecondFormat\<close>, hence lies in
  year 0.\<close>

definition exp_year0 :: "kvstore \<Rightarrow> bool" where
  "exp_year0 s \<longleftrightarrow> (\<forall>k t. expiredAt s k = Some t \<longrightarrow> year t = 0)"

text \<open>A fresh system: an empty log at \<open>path\<close>, an empty store, no rewrite.\<close>

definition aof_init :: "string \<Rightarrow> aof_system" where
  "aof_init path =
     \<lparr>pers = \<lparr>aofFileName = path, files = [path \<mapsto> []]\<rparr>, live = empty_store, phase = RwIdle\<rparr>"

inductive aof_reachable :: "string \<Rightarrow> aof_system \<Rightarrow> bool" where
  init: "aof_reachable path (aof_init path)"
| step: "aof_reachable path \<sigma> \<Longrightarrow> aof_step \<sigma> \<sigma>' \<Longrightarrow> aof_reachable path \<sigma>'"


text \<open>
  The invariant of the interleaving, for a reload at time \<open>T\<close>.  The log holds the
  encoding of a command sequence \<open>cs\<close> that replays, on the contract, to the live
  store's view.  While a rewrite runs, \<open>cs\<close> splits at the recorded size \<open>L\<close>
  into the part the rewrite compacts and the part appended since; once rebuilt,
  the temporary file holds commands \<open>rc\<close> that replay to the same store as that
  first part.
\<close>

fun phase_inv :: "gotime \<Rightarrow> string \<Rightarrow> persister \<Rightarrow> byteslice list list \<Rightarrow> rw_phase \<Rightarrow> bool" where
  "phase_inv T path p cs RwIdle = True"
| "phase_inv T path p cs (RwStarted tmp L) =
     (tmp \<noteq> path \<and> files p tmp = Some [] \<and> (\<exists>cs1 cs2. cs = cs1 @ cs2 \<and> L = length (encode_log cs1)))"
| "phase_inv T path p cs (RwRebuilt tmp L) =
     (tmp \<noteq> path \<and>
      (\<exists>cs1 cs2 rc. cs = cs1 @ cs2 \<and> L = length (encode_log cs1) \<and> files p tmp = Some (encode_log rc) \<and>
         replay_fits T rc Map.empty \<and> a_replay T rc Map.empty = a_replay T cs1 Map.empty))"

definition log_inv :: "gotime \<Rightarrow> string \<Rightarrow> aof_system \<Rightarrow> bool" where
  "log_inv T path \<sigma> \<longleftrightarrow>
     aofFileName (pers \<sigma>) = path \<and> store_inv (live \<sigma>) \<and> exp_year0 (live \<sigma>) \<and>
     (\<exists>cs. files (pers \<sigma>) path = Some (encode_log cs) \<and> replay_fits T cs Map.empty \<and>
        a_replay T cs Map.empty = Inr (view T (live \<sigma>)) \<and> phase_inv T path (pers \<sigma>) cs (phase \<sigma>))"


section \<open>The contract does not depend on the clock\<close>

text \<open>
  The contract reads the clock only to decide whether an \<open>expireat\<close> time is
  past, and every time the repository's layout parses is midnight of year 0
  (\<open>ParseTimeSecondFormat_year0\<close>); so at any two times after year 0 the contract,
  the views of a store whose expiries lie in year 0, and hence replays, agree.
\<close>

lemma a_apply_clock:
  assumes "0 < year now" "0 < year T"
  shows "a_apply now cmd V = a_apply T cmd V"
proof (cases cmd)
  case (CExpireAt k ts)
  show ?thesis
  proof (cases "ParseTimeSecondFormat (bstr ts)")
    case (Inr t)
    then have "year t = 0" using ParseTimeSecondFormat_year0 by blast
    then have "Before t now" "Before t T" using year0_Before assms by blast+
    then show ?thesis using CExpireAt Inr by (simp split: option.splits)
  qed (use CExpireAt in simp)
qed simp_all

lemma a_Do_clock:
  assumes "0 < year now" "0 < year T"
  shows "a_Do now c V = a_Do T c V"
  by (simp add: a_Do_def a_exec_def a_apply_clock [OF assms] split: sum.splits)

lemma replay_clock:
  assumes "0 < year now" "0 < year T"
  shows "a_replay now cs V = a_replay T cs V \<and> replay_fits now cs V = replay_fits T cs V"
  by (induction cs arbitrary: V) (simp_all add: a_Do_clock [OF assms] split: sum.splits prod.splits)

lemma view_clock:
  assumes "exp_year0 s" "0 < year now" "0 < year T"
  shows "view now s = view T s"
proof (rule ext)
  fix k
  show "view now s k = view T s k"
  proof (cases "expiredAt s k")
    case (Some t)
    then have "Before t now" "Before t T" using assms year0_Before by (auto simp: exp_year0_def)
    then show ?thesis using Some by (simp add: view_def split: option.splits)
  qed (simp add: view_def split: option.splits)
qed

text \<open>A store whose expiries lie in year 0 shows no expiry in its view.\<close>

lemma view_no_expiry:
  assumes "exp_year0 s" "0 < year T" "view T s k = Some (e, ex)"
  shows "ex = None \<and> expiredAt s k = None"
  using assms year0_Before by (auto simp: view_def exp_year0_def split: option.splits if_splits)

section \<open>Expiries stay in year 0\<close>

lemma exp_year0_empty [simp]: "exp_year0 empty_store"
  by (simp add: exp_year0_def empty_store_def)

lemma exp_year0_del_key: "exp_year0 s \<Longrightarrow> exp_year0 (del_key k s)"
  by (simp add: exp_year0_def del_key_def)

lemma exp_year0_expirePreprocess: "exp_year0 s \<Longrightarrow> exp_year0 (expirePreprocess now k s)"
  by (simp add: expirePreprocess_def exp_year0_del_key split: option.splits)

lemma exp_year0_putAsList: "exp_year0 s \<Longrightarrow> exp_year0 (putAsList k l s)"
  by (simp add: exp_year0_def putAsList_def)

lemma exec_push_expiredAt: "exec_push left k vs s = Inr (r, s') \<Longrightarrow> expiredAt s' = expiredAt s"
  unfolding exec_push_def Let_def
  by (auto simp: putAsList_def split: sum.split_asm option.split_asm)

lemma exec_pop_expiredAt:
  "exec_pop left k cnt s = Inr (r, s') \<Longrightarrow> expiredAt s' = expiredAt s \<or> s' = del_key k s"
  unfolding exec_pop_def
  by (auto simp: putAsList_def split: sum.split_asm option.split_asm prod.split_asm if_split_asm)

lemma apply_cmd_exp_year0:
  assumes "exp_year0 s" "apply_cmd cmd s = Inr (r, s')"
  shows "exp_year0 s'"
proof (cases cmd)
  case (CExpireAt k ts)
  show ?thesis
  proof (cases "ParseTimeSecondFormat (bstr ts)")
    case (Inr t)
    then have "year t = 0" using ParseTimeSecondFormat_year0 by blast
    then show ?thesis using assms CExpireAt Inr
      by (auto simp: exec_expireat_def exp_year0_def split: option.splits if_splits)
  qed (use assms CExpireAt in \<open>simp add: exec_expireat_def\<close>)
next
  case (CPush left k vs)
  then show ?thesis using assms exec_push_expiredAt [of left k vs s r s'] by (simp add: exp_year0_def)
next
  case (CPop left k cnt)
  then show ?thesis using assms exec_pop_expiredAt [of left k cnt s r s'] exp_year0_del_key
    by (auto simp: exp_year0_def)
next
  case (CDel k)
  then show ?thesis using assms exp_year0_del_key by (auto simp: exec_del_def split: option.splits)
next
  case (CSet k v)
  then show ?thesis using assms by (auto simp: exec_set_def exp_year0_def split: if_splits)
qed (use assms in auto)

lemma trigger_Do_exp_year0:
  assumes "exp_year0 s" "trigger_Do now c s = Inr (r, s', L)"
  shows "exp_year0 s'"
proof (cases "Do_validate c")
  case (Inr cmd)
  define pc where "pc = parse_command (cmd_type cmd) (cmd_args cmd)"
  define s1 where "s1 = (if is_bad pc then s else expirePreprocess now (cmd_key pc) s)"
  have e1: "exp_year0 s1" using assms(1) by (simp add: s1_def exp_year0_expirePreprocess)
  have ex: "trigger_Do now c s =
              (case apply_cmd pc s1 of Inl e \<Rightarrow> Inl e
               | Inr (r, s') \<Rightarrow> Inr (r, s', if logged_cmd pc r then [Some (cmd_type cmd) # cmd_args cmd] else []))"
    unfolding trigger_Do_def exec_command_def exec_cmd_def Let_def pc_def s1_def using Inr by simp
  show ?thesis
  proof (cases "apply_cmd pc s1")
    case (Inr x)
    then obtain r' s'' where x: "apply_cmd pc s1 = Inr (r', s'')" by (cases x) auto
    then have "s'' = s'" using ex assms(2) by simp
    then show ?thesis using apply_cmd_exp_year0 [OF e1 x] by simp
  qed (use ex assms(2) in simp)
qed (use assms in \<open>simp add: trigger_Do_def\<close>)

lemma replay_exp_year0: "exp_year0 s \<Longrightarrow> replay now cs s = Inr s' \<Longrightarrow> exp_year0 s'"
proof (induction cs arbitrary: s)
  case (Cons c cs)
  then obtain r s1 L where t: "trigger_Do now c s = Inr (r, s1, L)" and rest: "replay now cs s1 = Inr s'"
    by (auto split: sum.splits prod.splits)
  show ?case using Cons.IH [OF trigger_Do_exp_year0 [OF Cons.prems(1) t] rest] .
qed simp

section \<open>Replaying concatenated logs\<close>

lemma a_replay_append:
  "a_replay T (xs @ ys) V = (case a_replay T xs V of Inl e \<Rightarrow> Inl e | Inr V' \<Rightarrow> a_replay T ys V')"
  by (induction xs arbitrary: V) (simp_all split: sum.splits prod.splits)

lemma replay_fits_append:
  "replay_fits T (xs @ ys) V =
     (replay_fits T xs V \<and> (case a_replay T xs V of Inl _ \<Rightarrow> True | Inr V' \<Rightarrow> replay_fits T ys V'))"
  by (induction xs arbitrary: V) (auto split: sum.splits prod.splits)


section \<open>Rebuilding a store from its keys\<close>

lemma ForEach_Cons_year0:
  assumes "exp_year0 s" "0 < year T"
  shows "ForEach T (k # ks) s =
           (case data s k of None \<Rightarrow> []
            | Some v \<Rightarrow> if expiredAt s k = None then [(k, v, None)] else []) @ ForEach T ks s"
  using assms year0_Before by (auto simp: ForEach_def exp_year0_def split: option.splits)

lemma view_year0:
  assumes "exp_year0 s" "0 < year T"
  shows "view T s k =
           (case data s k of None \<Rightarrow> None
            | Some v \<Rightarrow> if expiredAt s k = None then Some (abs_entity v, None) else None)"
  using assms year0_Before by (auto simp: view_def exp_year0_def split: option.splits)

lemma rewrite_cmds_simps [simp]:
  "rewrite_cmds [] = []"
  "rewrite_cmds (xs @ ys) = rewrite_cmds xs @ rewrite_cmds ys"
  "rewrite_cmds ((k, e, None) # xs) = entity_ToCmd k e # rewrite_cmds xs"
  by (simp_all add: rewrite_cmds_def)

lemma entity_ToCmd_replay:
  assumes inv: "store_inv s" and k: "data s k = Some v" and V: "V k = None"
  shows "replay_fits T [entity_ToCmd k v] V \<and>
         a_replay T [entity_ToCmd k v] V = Inr (V(k \<mapsto> (abs_entity v, None)))"
proof (cases v)
  case (StringValue x)
  have "Do_validate [Some ''set'', Some k, Some x] = Inr \<lparr>cmd_type = ''set'', cmd_args = [Some k, Some x]\<rparr>"
    by (simp add: Do_validate_ok bstr_def ToLower_set ValidCommand_def command_names_def)
  moreover have "parse_command ''set'' [Some k, Some x] = CSet k (Some x)"
    by (simp add: parse_command_def bstr_def)
  ultimately show ?thesis using StringValue
    by (simp add: a_Do_def a_exec_def line_fits_def bstr_def)
next
  case (ListValue l)
  have l: "ring_inv l" "key l = k" "0 < size_l l" using inv k ListValue by (auto simp: store_inv_def)
  let ?xs = "list_of l"
  have len: "length ?xs = size_l l" "size_l l \<le> maxCap"
    using length_list_of [OF l(1)] l(1) by (auto simp: ring_inv_def)
  have ne: "?xs \<noteq> []" using len l(3) by auto
  have cmd: "entity_ToCmd k v = Some ''rpush'' # Some k # ?xs"
    using ToCmd_correct [OF l(1)] l(2) ListValue by (simp add: CmdTypeRPush_def)
  have "Do_validate (Some ''rpush'' # Some k # ?xs) = Inr \<lparr>cmd_type = ''rpush'', cmd_args = Some k # ?xs\<rparr>"
    by (simp add: Do_validate_ok bstr_def ToLower_rpush ValidCommand_def command_names_def)
  moreover have "parse_command ''rpush'' (Some k # ?xs) = CPush False k ?xs"
    using ne by (simp add: parse_command_def bstr_def Suc_le_eq)
  ultimately show ?thesis using cmd ListValue V ne len
    by (simp add: a_Do_def a_exec_def line_fits_def push_all_def)
qed

lemma rewrite_replay:
  assumes inv: "store_inv s" "exp_year0 s" "0 < year T"
  shows "distinct ks \<Longrightarrow> (\<forall>k\<in>set ks. V k = None) \<Longrightarrow>
           replay_fits T (rewrite_cmds (ForEach T ks s)) V \<and>
           a_replay T (rewrite_cmds (ForEach T ks s)) V = Inr (V ++ (view T s |` set ks))"
proof (induction ks arbitrary: V)
  case Nil
  then show ?case by (simp add: ForEach_def)
next
  case (Cons k ks)
  note vk = view_year0 [OF inv(2,3), of k]
  show ?case
  proof (cases "\<exists>v. data s k = Some v \<and> expiredAt s k = None")
    case True
    then obtain v where v: "data s k = Some v" "expiredAt s k = None" by blast
    let ?V1 = "V(k \<mapsto> (abs_entity v, None))"
    have one: "replay_fits T [entity_ToCmd k v] V \<and> a_replay T [entity_ToCmd k v] V = Inr ?V1"
      using entity_ToCmd_replay [OF inv(1) v(1)] Cons.prems by simp
    have IH: "replay_fits T (rewrite_cmds (ForEach T ks s)) ?V1 \<and>
              a_replay T (rewrite_cmds (ForEach T ks s)) ?V1 = Inr (?V1 ++ (view T s |` set ks))"
    proof -
      have "\<forall>k'\<in>set ks. ?V1 k' = None" using Cons.prems by auto
      moreover have "distinct ks" using Cons.prems(1) by simp
      ultimately show ?thesis using Cons.IH [of ?V1] by blast
    qed
    have "?V1 ++ (view T s |` set ks) = V ++ (view T s |` set (k # ks))"
      using vk v Cons.prems(1) by (auto simp: map_add_def restrict_map_def split: option.splits)
    then show ?thesis using one IH v ForEach_Cons_year0 [OF inv(2,3)]
      by (simp split: sum.splits prod.splits)
  next
    case False
    then have "view T s k = None" using vk by (auto split: option.splits)
    then have "V ++ (view T s |` set (k # ks)) = V ++ (view T s |` set ks)"
      by (auto simp: map_add_def restrict_map_def split: option.splits)
    moreover have "ForEach T (k # ks) s = ForEach T ks s"
      using False ForEach_Cons_year0 [OF inv(2,3)] by (auto split: option.splits)
    ultimately show ?thesis using Cons by simp
  qed
qed

lemma rewrite_replay_all:
  assumes "store_inv s" "exp_year0 s" "0 < year T" "distinct ks" "set ks = dom (data s)"
  shows "replay_fits T (rewrite_cmds (ForEach T ks s)) Map.empty \<and>
         a_replay T (rewrite_cmds (ForEach T ks s)) Map.empty = Inr (view T s)"
proof -
  have "view T s |` dom (data s) = view T s"
    by (rule ext) (auto simp: restrict_map_def view_def split: option.splits)
  then show ?thesis using rewrite_replay [OF assms(1-3) assms(4)] assms(5) by simp
qed


section \<open>The invariant of interleaved rewrites\<close>

lemma phase_inv_append:
  assumes ph: "phase_inv T path p cs ph" and f: "files p' = (files p)(path \<mapsto> x)"
  shows "phase_inv T path p' (cs @ L) ph"
proof (cases ph)
  case (RwStarted tmp n)
  then obtain cs1 cs2 where c: "tmp \<noteq> path" "files p tmp = Some []" "cs = cs1 @ cs2"
    "n = length (encode_log cs1)" using ph by auto
  have "phase_inv T path p' (cs1 @ cs2 @ L) ph"
    using RwStarted c f by simp blast
  then show ?thesis using c(3) by simp
next
  case (RwRebuilt tmp n)
  then obtain cs1 cs2 rc where c: "tmp \<noteq> path" "cs = cs1 @ cs2" "n = length (encode_log cs1)"
    "files p tmp = Some (encode_log rc)" "replay_fits T rc Map.empty"
    "a_replay T rc Map.empty = a_replay T cs1 Map.empty" using ph by auto
  have "phase_inv T path p' (cs1 @ cs2 @ L) ph"
    using RwRebuilt c f by simp blast
  then show ?thesis using c(2) by simp
qed simp

lemma a_replay_prefix:
  assumes "a_replay T (xs @ ys) V = Inr W" "replay_fits T (xs @ ys) V"
  obtains V1 where "a_replay T xs V = Inr V1" "replay_fits T xs V" "replay_fits T ys V1"
    "a_replay T ys V1 = Inr W"
  using assms by (auto simp: a_replay_append replay_fits_append split: sum.splits)

lemma log_inv_init: "log_inv T path (aof_init path)"
  by (auto simp: log_inv_def aof_init_def intro!: exI [of _ "[]"])

lemma log_inv_live:
  assumes inv: "log_inv T path \<sigma>" and T: "0 < year T" and now: "0 < year now"
    and fits: "line_fits cmdLine (view now (live \<sigma>))"
    and run: "trigger_Do now cmdLine (live \<sigma>) = Inr (r, s', L)"
  shows "log_inv T path (\<sigma>\<lparr>live := s', pers := persist_append L (pers \<sigma>)\<rparr>)"
proof -
  obtain cs where name: "aofFileName (pers \<sigma>) = path" and st: "store_inv (live \<sigma>)" "exp_year0 (live \<sigma>)"
    and log: "files (pers \<sigma>) path = Some (encode_log cs)" "replay_fits T cs Map.empty"
      "a_replay T cs Map.empty = Inr (view T (live \<sigma>))" and ph: "phase_inv T path (pers \<sigma>) cs (phase \<sigma>)"
    using inv by (auto simp: log_inv_def)
  note ref = trigger_refines [OF st(1) fits]
  have s': "store_inv s'" using ref run by blast
  have e': "exp_year0 s'" using trigger_Do_exp_year0 [OF st(2) run] .
  have "a_Do now cmdLine (view now (live \<sigma>)) = Inr (r, view now s', L)"
    using ref run by simp
  then have aDo: "a_Do T cmdLine (view T (live \<sigma>)) = Inr (r, view T s', L)"
    using a_Do_clock [OF now T] view_clock [OF st(2) now T] view_clock [OF e' now T] by simp
  have fitsT: "line_fits cmdLine (view T (live \<sigma>))" using fits view_clock [OF st(2) now T] by simp
  note lg = a_Do_logged [OF aDo]
  have files': "files (persist_append L (pers \<sigma>)) = (files (pers \<sigma>))(path \<mapsto> encode_log (cs @ L))"
    using log(1) name by (simp add: persist_append_def)
  have name': "aofFileName (persist_append L (pers \<sigma>)) = path"
    using name by (simp add: persist_append_def split: option.splits)
  have "replay_fits T (cs @ L) Map.empty" "a_replay T (cs @ L) Map.empty = Inr (view T s')"
    using log(2,3) lg fitsT by (simp_all add: a_replay_append replay_fits_append)
  then show ?thesis using name' s' e' files' phase_inv_append [OF ph files'] unfolding log_inv_def
    by (auto intro!: exI [of _ "cs @ L"])
qed

lemma log_invD:
  assumes "log_inv T path \<sigma>"
  obtains cs where "aofFileName (pers \<sigma>) = path" "store_inv (live \<sigma>)" "exp_year0 (live \<sigma>)"
    "files (pers \<sigma>) path = Some (encode_log cs)" "replay_fits T cs Map.empty"
    "a_replay T cs Map.empty = Inr (view T (live \<sigma>))" "phase_inv T path (pers \<sigma>) cs (phase \<sigma>)"
  using assms by (auto simp: log_inv_def)

lemma log_invI:
  assumes "aofFileName (pers \<sigma>) = path" "store_inv (live \<sigma>)" "exp_year0 (live \<sigma>)"
    "files (pers \<sigma>) path = Some (encode_log cs)" "replay_fits T cs Map.empty"
    "a_replay T cs Map.empty = Inr (view T (live \<sigma>))" "phase_inv T path (pers \<sigma>) cs (phase \<sigma>)"
  shows "log_inv T path \<sigma>"
  using assms unfolding log_inv_def by blast

lemma log_inv_idle: "log_inv T path \<sigma> \<Longrightarrow> log_inv T path (\<sigma>\<lparr>phase := RwIdle\<rparr>)"
  by (auto simp: log_inv_def)

lemma log_inv_start:
  assumes inv: "log_inv T path \<sigma>"
    and st: "startRewrite sync_ok tmp (pers \<sigma>) = Inr (Inr (tmp', fsize), p')"
  shows "log_inv T path (\<sigma>\<lparr>pers := p', phase := RwStarted tmp' fsize\<rparr>)"
proof -
  obtain cs where c: "aofFileName (pers \<sigma>) = path" "store_inv (live \<sigma>)" "exp_year0 (live \<sigma>)"
    "files (pers \<sigma>) path = Some (encode_log cs)" "replay_fits T cs Map.empty"
    "a_replay T cs Map.empty = Inr (view T (live \<sigma>))"
    using log_invD [OF inv] by metis
  have p': "files (pers \<sigma>) tmp = None" "tmp' = tmp" "fsize = length (encode_log cs)"
    "p' = pers \<sigma>\<lparr>files := (files (pers \<sigma>))(tmp \<mapsto> [])\<rparr>"
    using st c(1,4) by (auto simp: startRewrite_def split: if_splits)
  have "tmp \<noteq> path" using p'(1) c(4) by auto
  then have "phase_inv T path p' cs (RwStarted tmp' fsize)"
    using p' by simp (metis append_Nil2)
  then show ?thesis using c p' \<open>tmp \<noteq> path\<close> unfolding log_inv_def by auto
qed

lemma log_inv_start_fail:
  assumes "log_inv T path \<sigma>" "startRewrite sync_ok tmp (pers \<sigma>) = Inr (Inl err, p')"
  shows "log_inv T path (\<sigma>\<lparr>pers := p'\<rparr>)"
proof -
  have "p' = pers \<sigma>" using assms(2) by (auto simp: startRewrite_def split: if_splits option.splits)
  then show ?thesis using assms(1) by simp
qed

text \<open>The log's first \<open>L\<close> bytes, replayed by \<open>forkDB\<close>, give the store of its first
  commands.\<close>

lemma forkDB_replay:
  assumes "files p (aofFileName p) = Some (encode_log (cs1 @ cs2))"
    "forkDB now (length (encode_log cs1)) p = Inr (Inr s)"
  shows "replay now cs1 empty_store = Inr s"
  using assms Start_encode [of now cs1 empty_store]
  by (cases "replay now cs1 empty_store") (auto simp: forkDB_def split: sum.splits)

text \<open>What the rebuild reads and writes: the fork replays the log's first commands
  into a well-formed store, and the commands written for its keys replay to the
  same view.\<close>

lemma fork_rebuild:
  assumes aof: "files p (aofFileName p) = Some (encode_log (cs1 @ cs2))"
    and fits: "replay_fits now cs1 Map.empty" and now: "0 < year now"
    and fk: "forkDB now (length (encode_log cs1)) p = Inr (Inr s)"
    and ks: "distinct ks" "set ks = dom (data s)"
  shows "a_replay now cs1 Map.empty = Inr (view now s) \<and>
         replay_fits now (rewrite_cmds (ForEach now ks s)) Map.empty \<and>
         a_replay now (rewrite_cmds (ForEach now ks s)) Map.empty = Inr (view now s)"
proof -
  have rp: "replay now cs1 empty_store = Inr s" using forkDB_replay [OF aof fk] .
  have "replay_fits now cs1 (view now empty_store)" using fits by simp
  from replay_refines [OF store_inv_empty this] rp
  have sN: "a_replay now cs1 Map.empty = Inr (view now s)" "store_inv s" by auto
  have es: "exp_year0 s" using replay_exp_year0 [OF exp_year0_empty rp] .
  show ?thesis using sN rewrite_replay_all [OF sN(2) es now ks] by simp
qed

lemma doRewrite_files:
  assumes "forkDB now fsize p = Inr (Inr s)" "files p tmp = Some []"
    "doRewrite now ks tmp fsize p = Inr (Inr p')"
  shows "p' = p\<lparr>files := (files p)(tmp \<mapsto> encode_log (rewrite_cmds (ForEach now ks s)))\<rparr>"
  using assms by (simp add: doRewrite_def)

lemma log_inv_rebuild:
  assumes inv: "log_inv T path \<sigma>" "0 < year T" and ph: "phase \<sigma> = RwStarted tmp fsize"
    and now: "0 < year now" and fk: "forkDB now fsize (pers \<sigma>) = Inr (Inr s)"
    and ks: "distinct ks" "set ks = dom (data s)"
    and rw: "doRewrite now ks tmp fsize (pers \<sigma>) = Inr (Inr p')"
  shows "log_inv T path (\<sigma>\<lparr>pers := p', phase := RwRebuilt tmp fsize\<rparr>)"
proof -
  obtain cs where c: "aofFileName (pers \<sigma>) = path" "store_inv (live \<sigma>)" "exp_year0 (live \<sigma>)"
    "files (pers \<sigma>) path = Some (encode_log cs)" "replay_fits T cs Map.empty"
    "a_replay T cs Map.empty = Inr (view T (live \<sigma>))" "phase_inv T path (pers \<sigma>) cs (phase \<sigma>)"
    using log_invD [OF inv(1)] by metis
  obtain cs1 cs2 where d: "tmp \<noteq> path" "files (pers \<sigma>) tmp = Some []" "cs = cs1 @ cs2"
    "fsize = length (encode_log cs1)" using c(7) ph by auto
  obtain V1 where v1: "a_replay T cs1 Map.empty = Inr V1" "replay_fits T cs1 Map.empty"
    using a_replay_prefix [of T cs1 cs2] c(5,6) d(3) by metis
  have "replay_fits now cs1 Map.empty"
    using replay_clock [OF now inv(2), of cs1 Map.empty] v1(2) by simp
  note fr = fork_rebuild [of "pers \<sigma>" cs1 cs2, OF _ this now _ ks]
  let ?rc = "rewrite_cmds (ForEach now ks s)"
  have rcN: "a_replay now cs1 Map.empty = Inr (view now s)" "replay_fits now ?rc Map.empty"
    "a_replay now ?rc Map.empty = Inr (view now s)"
    using fr c(1,4) d(3,4) fk by simp_all
  have rcT: "replay_fits T ?rc Map.empty" "a_replay T ?rc Map.empty = a_replay T cs1 Map.empty"
    using rcN replay_clock [OF now inv(2), of ?rc Map.empty] replay_clock [OF now inv(2), of cs1 Map.empty]
    by simp_all
  have p': "p' = pers \<sigma>\<lparr>files := (files (pers \<sigma>))(tmp \<mapsto> encode_log ?rc)\<rparr>"
    using doRewrite_files [OF fk d(2) rw] .
  have ph': "phase_inv T path p' cs (RwRebuilt tmp fsize)" using d rcT p' by simp blast
  show ?thesis by (rule log_invI [where cs = cs]) (use c p' ph' d(1) in simp_all)
qed

lemma log_inv_finish:
  assumes inv: "log_inv T path \<sigma>" and ph: "phase \<sigma> = RwRebuilt tmp fsize"
    and en: "endRewrite rename_ok tmp fsize (pers \<sigma>) = Inr p'"
  shows "log_inv T path (\<sigma>\<lparr>pers := p', phase := RwIdle\<rparr>)"
proof -
  obtain cs where c: "aofFileName (pers \<sigma>) = path" "store_inv (live \<sigma>)" "exp_year0 (live \<sigma>)"
    "files (pers \<sigma>) path = Some (encode_log cs)" "replay_fits T cs Map.empty"
    "a_replay T cs Map.empty = Inr (view T (live \<sigma>))" "phase_inv T path (pers \<sigma>) cs (phase \<sigma>)"
    using log_invD [OF inv(1)] by metis
  obtain cs1 cs2 rc where d: "tmp \<noteq> path" "cs = cs1 @ cs2" "fsize = length (encode_log cs1)"
    "files (pers \<sigma>) tmp = Some (encode_log rc)" "replay_fits T rc Map.empty"
    "a_replay T rc Map.empty = a_replay T cs1 Map.empty" using c(7) ph by auto
  obtain V1 where v1: "a_replay T cs1 Map.empty = Inr V1" "replay_fits T cs2 V1"
    "a_replay T cs2 V1 = Inr (view T (live \<sigma>))"
    using a_replay_prefix [of T cs1 cs2] c(5,6) d(2) by metis
  have new: "replay_fits T (rc @ cs2) Map.empty" "a_replay T (rc @ cs2) Map.empty = Inr (view T (live \<sigma>))"
    using d(5,6) v1 by (simp_all add: a_replay_append replay_fits_append)
  have t: "encode_log rc @ drop fsize (encode_log cs) = encode_log (rc @ cs2)" using d(2,3) by simp
  show ?thesis
  proof (cases rename_ok)
    case True
    then have "p' = pers \<sigma>\<lparr>files := (files (pers \<sigma>))(tmp := None, path \<mapsto> encode_log (rc @ cs2))\<rparr>"
      using en c(1,4) d(4) t by (simp add: endRewrite_def)
    then show ?thesis by (intro log_invI [where cs = "rc @ cs2"]) (use c new d(1) in simp_all)
  next
    case False
    then have "p' = pers \<sigma>\<lparr>files := (files (pers \<sigma>))(tmp \<mapsto> encode_log (rc @ cs2))\<rparr>"
      using en c(1,4) d(4) t by (simp add: endRewrite_def)
    then show ?thesis by (intro log_invI [where cs = cs]) (use c d(1) in simp_all)
  qed
qed

lemma log_inv_step:
  assumes "aof_step \<sigma> \<sigma>'" "log_inv T path \<sigma>" "0 < year T"
  shows "log_inv T path \<sigma>'"
  using assms(1)
proof cases
  case (live_cmd now cmdLine r s' L)
  then show ?thesis using log_inv_live [OF assms(2,3)] by blast
next
  case (start sync_ok tmp tmp' fsize p')
  then show ?thesis using log_inv_start [OF assms(2)] by blast
next
  case (start_fail sync_ok tmp err p')
  then show ?thesis using log_inv_start_fail [OF assms(2)] by blast
next
  case (rebuild tmp fsize now s ks p')
  then show ?thesis using log_inv_rebuild [OF assms(2,3)] by blast
next
  case (finish tmp fsize rename_ok p')
  then show ?thesis using log_inv_finish [OF assms(2)] by blast
qed (use log_inv_idle [OF assms(2)] in blast)+

lemma log_inv_reachable: "aof_reachable path \<sigma> \<Longrightarrow> 0 < year T \<Longrightarrow> log_inv T path \<sigma>"
  by (induction rule: aof_reachable.induct) (auto intro: log_inv_init log_inv_step)

text \<open>A log whose commands replay on the contract loads into a store with the
  same view.\<close>

lemma Start_loads:
  assumes "replay_fits T cs Map.empty" "a_replay T cs Map.empty = Inr V"
  shows "\<exists>s. Start T (Some (encode_log cs)) empty_store = Inr (False, s) \<and> view T s = V"
proof -
  have "replay_fits T cs (view T empty_store)" using assms(1) by simp
  from replay_refines [OF store_inv_empty this] assms(2)
  have "map_sum id (view T) (replay T cs empty_store) = Inr V" by simp
  then obtain s where "replay T cs empty_store = Inr s" "view T s = V"
    by (cases "replay T cs empty_store") auto
  then show ?thesis using Start_encode [of T cs empty_store] by simp
qed

text \<open>A run of the system: \<open>set a 1\<close>; a rewrite starts; \<open>set b 2\<close> arrives
  while it runs; the rebuild writes \<open>set a 1\<close> for the forked store; the rewrite
  ends and the log is the compacted part followed by the appended command.\<close>

lemma example_rewrite_run:
  "\<exists>\<sigma>4 \<sigma>5. aof_reachable ''aof'' \<sigma>4 \<and> phase \<sigma>4 = RwRebuilt ''tmp'' (length (encode_log [[Some ''set'', Some ''a'', Some ''1'']])) \<and>
     aof_reachable ''aof'' \<sigma>5 \<and> phase \<sigma>5 = RwIdle \<and>
     files (pers \<sigma>5) ''aof'' = Some (encode_log [[Some ''set'', Some ''a'', Some ''1''], [Some ''set'', Some ''b'', Some ''2'']]) \<and>
     live \<sigma>5 = \<lparr>data = [''a'' \<mapsto> StringValue ''1'', ''b'' \<mapsto> StringValue ''2''], expiredAt = Map.empty\<rparr>"
proof -
  let ?a = "[Some ''set'', Some ''a'', Some ''1'']" and ?b = "[Some ''set'', Some ''b'', Some ''2'']"
  define T0 where "T0 = \<lparr>year = 2024, month = 11, day = 25, hour = 13, minute = 7, second = 9, nanosecond = 0\<rparr>"
  define s1 where "s1 = empty_store\<lparr>data := [''a'' \<mapsto> StringValue ''1'']\<rparr>"
  define s2 where "s2 = s1\<lparr>data := (data s1)(''b'' \<mapsto> StringValue ''2'')\<rparr>"
  define n where "n = length (encode_log [?a])"
  have y: "0 < year T0" by (simp add: T0_def)
  txt \<open>A live \<open>set a 1\<close> on the empty log.\<close>
  define \<sigma>1 where "\<sigma>1 = (aof_init ''aof'')\<lparr>live := s1, pers := persist_append [?a] (pers (aof_init ''aof''))\<rparr>"
  have t1: "trigger_Do T0 ?a (live (aof_init ''aof'')) = Inr (OkReply, s1, [?a])"
    using trigger_Do_set_fresh [of empty_store "''a''" T0 "''1''"] by (simp add: aof_init_def s1_def empty_store_def)
  have f1: "line_fits ?a (view T0 (live (aof_init ''aof'')))" by code_simp
  have r1: "aof_reachable ''aof'' \<sigma>1"
    unfolding \<sigma>1_def by (rule aof_reachable.step [OF aof_reachable.init aof_step.live_cmd [OF y f1 t1]])
  have p1: "files (pers \<sigma>1) = [''aof'' \<mapsto> encode_log [?a]]" "aofFileName (pers \<sigma>1) = ''aof''"
    by (simp_all add: \<sigma>1_def aof_init_def persist_append_def)
  txt \<open>The rewrite starts, recording the log's size.\<close>
  define \<sigma>2 where "\<sigma>2 = \<sigma>1\<lparr>pers := (pers \<sigma>1)\<lparr>files := (files (pers \<sigma>1))(''tmp'' \<mapsto> [])\<rparr>,
                          phase := RwStarted ''tmp'' n\<rparr>"
  have st: "startRewrite True ''tmp'' (pers \<sigma>1) =
              Inr (Inr (''tmp'', n), (pers \<sigma>1)\<lparr>files := (files (pers \<sigma>1))(''tmp'' \<mapsto> [])\<rparr>)"
    using p1 by (simp add: startRewrite_def n_def)
  have ph1: "phase \<sigma>1 = RwIdle" by (simp add: \<sigma>1_def aof_init_def)
  have r2: "aof_reachable ''aof'' \<sigma>2"
    unfolding \<sigma>2_def by (rule aof_reachable.step [OF r1 aof_step.start [OF ph1 st]])
  txt \<open>A live \<open>set b 2\<close> while the rewrite runs.\<close>
  define \<sigma>3 where "\<sigma>3 = \<sigma>2\<lparr>live := s2, pers := persist_append [?b] (pers \<sigma>2)\<rparr>"
  have t3: "trigger_Do T0 ?b (live \<sigma>2) = Inr (OkReply, s2, [?b])"
    using trigger_Do_set_fresh [of s1 "''b''" T0 "''2''"]
    by (simp add: \<sigma>2_def \<sigma>1_def s1_def s2_def empty_store_def)
  have f3: "line_fits ?b (view T0 (live \<sigma>2))" by code_simp
  have r3: "aof_reachable ''aof'' \<sigma>3"
    unfolding \<sigma>3_def by (rule aof_reachable.step [OF r2 aof_step.live_cmd [OF y f3 t3]])
  have p3: "files (pers \<sigma>3) = [''aof'' \<mapsto> encode_log [?a, ?b], ''tmp'' \<mapsto> []]" "aofFileName (pers \<sigma>3) = ''aof''"
    using p1 by (auto simp: \<sigma>3_def \<sigma>2_def persist_append_def fun_upd_twist)
  txt \<open>The rebuild forks the first \<open>n\<close> bytes and writes \<open>set a 1\<close> back.\<close>
  have rp: "replay T0 [?a] empty_store = Inr s1"
    using trigger_Do_set_fresh [of empty_store "''a''" T0 "''1''"] by (simp add: s1_def empty_store_def)
  have fk: "forkDB T0 n (pers \<sigma>3) = Inr (Inr s1)"
    using p3 rp Start_encode [of T0 "[?a]" empty_store] by (simp add: forkDB_def n_def)
  have fe: "rewrite_cmds (ForEach T0 [''a''] s1) = [?a]"
    by (simp add: ForEach_def rewrite_cmds_def s1_def empty_store_def)
  define \<sigma>4 where "\<sigma>4 = \<sigma>3\<lparr>pers := (pers \<sigma>3)\<lparr>files := (files (pers \<sigma>3))(''tmp'' \<mapsto> [] @ encode_log [?a])\<rparr>,
                          phase := RwRebuilt ''tmp'' n\<rparr>"
  have rw: "doRewrite T0 [''a''] ''tmp'' n (pers \<sigma>3) =
              Inr (Inr ((pers \<sigma>3)\<lparr>files := (files (pers \<sigma>3))(''tmp'' \<mapsto> [] @ encode_log [?a])\<rparr>))"
    using fk fe p3 by (simp add: doRewrite_def)
  have ph3: "phase \<sigma>3 = RwStarted ''tmp'' n" by (simp add: \<sigma>3_def \<sigma>2_def)
  have ks: "distinct [''a'']" "set [''a''] = dom (data s1)" by (simp_all add: s1_def empty_store_def)
  have r4: "aof_reachable ''aof'' \<sigma>4"
    unfolding \<sigma>4_def by (rule aof_reachable.step [OF r3 aof_step.rebuild [OF ph3 y fk ks rw]])
  txt \<open>The rewrite ends: the appended \<open>set b 2\<close> follows the compacted part.\<close>
  have p4: "files (pers \<sigma>4) ''aof'' = Some (encode_log [?a, ?b])" "files (pers \<sigma>4) ''tmp'' = Some (encode_log [?a])"
    "aofFileName (pers \<sigma>4) = ''aof''"
    using p3 by (simp_all add: \<sigma>4_def)
  define \<sigma>5 where "\<sigma>5 = \<sigma>4\<lparr>pers := (pers \<sigma>4)\<lparr>files := (files (pers \<sigma>4))(''tmp'' := None,
                            ''aof'' \<mapsto> encode_log [?a] @ drop n (encode_log [?a, ?b]))\<rparr>, phase := RwIdle\<rparr>"
  have en: "endRewrite True ''tmp'' n (pers \<sigma>4) =
              Inr ((pers \<sigma>4)\<lparr>files := (files (pers \<sigma>4))(''tmp'' := None,
                            ''aof'' \<mapsto> encode_log [?a] @ drop n (encode_log [?a, ?b]))\<rparr>)"
    using p4 by (simp add: endRewrite_def)
  have ph4: "phase \<sigma>4 = RwRebuilt ''tmp'' n" by (simp add: \<sigma>4_def)
  have r5: "aof_reachable ''aof'' \<sigma>5"
    unfolding \<sigma>5_def by (rule aof_reachable.step [OF r4 aof_step.finish [OF ph4 en]])
  have ab: "encode_log [?a, ?b] = encode_log [?a] @ encode_log [?b]"
    using encode_log_append [of "[?a]" "[?b]"] by simp
  have "files (pers \<sigma>5) ''aof'' = Some (encode_log [?a, ?b])" "phase \<sigma>5 = RwIdle"
    unfolding \<sigma>5_def n_def ab by simp_all
  moreover have "live \<sigma>5 = \<lparr>data = [''a'' \<mapsto> StringValue ''1'', ''b'' \<mapsto> StringValue ''2''], expiredAt = Map.empty\<rparr>"
    by (simp add: \<sigma>5_def \<sigma>4_def \<sigma>3_def s2_def s1_def empty_store_def)
  ultimately show ?thesis using r4 ph4 r5 unfolding n_def by blast
qed

section \<open>Properties of the rewrite\<close>



text \<open>
  C20.  The file a rewrite writes is equivalent to the part of the log it
  replaces: loaded through \<open>Start\<close>, the commands \<open>doRewrite\<close> writes for the
  forked store's keys rebuild a store that reads as the fork, i.e. as the log's
  first \<open>L\<close> bytes.
\<close>

theorem rewrite_equivalent:
  assumes "files p (aofFileName p) = Some (encode_log (cs1 @ cs2))" "replay_fits now cs1 Map.empty"
    "0 < year now" "forkDB now (length (encode_log cs1)) p = Inr (Inr s)" "distinct ks" "set ks = dom (data s)"
    "files p tmp = Some []" "doRewrite now ks tmp (length (encode_log cs1)) p = Inr (Inr p')"
  shows "\<exists>s'. Start now (files p' tmp) empty_store = Inr (False, s') \<and> view now s' = view now s"
proof -
  note fr = fork_rebuild [OF assms(1-6)]
  have "files p' tmp = Some (encode_log (rewrite_cmds (ForEach now ks s)))"
    using doRewrite_files [OF assms(4,7,8)] by simp
  then show ?thesis using Start_loads fr by simp
qed

theorem rewrite_equivalent_witness:
  "\<exists>s'. Start \<lparr>year = 2024, month = 11, day = 25, hour = 13, minute = 7, second = 9, nanosecond = 0\<rparr>
          (Some (encode_log (rewrite_cmds (ForEach \<lparr>year = 2024, month = 11, day = 25, hour = 13, minute = 7,
                   second = 9, nanosecond = 0\<rparr> [''a''] (empty_store\<lparr>data := [''a'' \<mapsto> StringValue ''1'']\<rparr>)))))
          empty_store = Inr (False, s') \<and>
        view \<lparr>year = 2024, month = 11, day = 25, hour = 13, minute = 7, second = 9, nanosecond = 0\<rparr> s' =
        view \<lparr>year = 2024, month = 11, day = 25, hour = 13, minute = 7, second = 9, nanosecond = 0\<rparr>
          (empty_store\<lparr>data := [''a'' \<mapsto> StringValue ''1'']\<rparr>)"
proof -
  let ?T = "\<lparr>year = 2024, month = 11, day = 25, hour = 13, minute = 7, second = 9, nanosecond = 0\<rparr>"
  let ?a = "[Some ''set'', Some ''a'', Some ''1'']" and ?b = "[Some ''set'', Some ''b'', Some ''2'']"
  let ?s1 = "empty_store\<lparr>data := [''a'' \<mapsto> StringValue ''1'']\<rparr>"
  let ?p = "\<lparr>aofFileName = ''aof'', files = [''aof'' \<mapsto> encode_log ([?a] @ [?b]), ''tmp'' \<mapsto> []]\<rparr>"
  let ?rc = "rewrite_cmds (ForEach ?T [''a''] ?s1)"
  have rp: "replay ?T [?a] empty_store = Inr ?s1"
    using trigger_Do_set_fresh [of empty_store "''a''" ?T "''1''"] by (simp add: empty_store_def)
  have aof: "files ?p (aofFileName ?p) = Some (encode_log ([?a] @ [?b]))" by simp
  have fits: "replay_fits ?T [?a] Map.empty" by code_simp
  have fk: "forkDB ?T (length (encode_log [?a])) ?p = Inr (Inr ?s1)"
    using rp Start_encode [of ?T "[?a]" empty_store] by (simp add: forkDB_def)
  have ks: "distinct [''a'']" "set [''a''] = dom (data ?s1)" by (simp_all add: empty_store_def)
  have tmp: "files ?p ''tmp'' = Some []" by simp
  have rw: "doRewrite ?T [''a''] ''tmp'' (length (encode_log [?a])) ?p =
              Inr (Inr (?p\<lparr>files := (files ?p)(''tmp'' \<mapsto> encode_log ?rc)\<rparr>))"
    using fk by (simp add: doRewrite_def)
  show ?thesis using rewrite_equivalent [OF aof fits _ fk ks tmp rw] by simp
qed



end
