(* ===== verification/Server.thy ===== *)
theory Server
  imports Handler
begin

text \<open>
  \<open>src/server/server.go\<close>: the TCP server.  \<open>Start\<close> starts the handler (the
  reload of the log), then, once (\<open>sync.Once run\<close>), submits a goroutine that
  waits for an exit signal or for \<open>stopChan\<close> and then sends on \<open>closeChan\<close>,
  listens, and runs \<open>listenAndServe\<close>: a closer goroutine waits on \<open>closeChan\<close>
  or \<open>errChan\<close> and then cancels the connections' context, closes the handler
  and the listener, while the accept loop hands each accepted connection to a
  goroutine running \<open>Handle\<close>, retries on timeouts, and on any other error sends
  it on \<open>errChan\<close>, waits for the connection goroutines and closes \<open>errChan\<close>.
  \<open>Stop\<close> closes \<open>stopChan\<close> once (\<open>sync.Once stop\<close>).

  The goroutines are the step relation \<open>srv_internal\<close> on a record of the
  server's channels (buffered channels as their contents), program points and
  counters; the calls from outside (\<open>Start\<close>, \<open>Stop\<close>, an OS signal) are the
  further steps of \<open>srv_step\<close>.  The outcomes the code cannot decide (the
  handler's \<open>Start\<close>, \<open>net.Listen\<close>, each \<open>Accept\<close>) are parameters of the
  steps.  A goroutine submitted to the pool that panics is recovered by the
  pool's panic handler (\<open>src/pkg/pool.go\<close>): it ends, and \<open>panicked\<close> records
  it.  The accept loop alone, over a stream of \<open>Accept\<close> outcomes, is
  \<open>accept_loop\<close>, a \<open>partial_function\<close> because it need not return.
\<close>

datatype os_signal = SIGHUP | SIGQUIT | SIGTERM | SIGINT

definition exitSignal :: "os_signal list" where
  "exitSignal = [SIGHUP, SIGQUIT, SIGTERM, SIGINT]"

record server =
  run_done :: bool
  stop_done :: bool
  stopChan_closed :: bool

definition NewServer :: server where
  "NewServer = \<lparr>run_done = False, stop_done = False, stopChan_closed = False\<rparr>"

text \<open>Go's \<open>close\<close> of a channel: closing a closed channel panics.\<close>

definition go_close :: "bool \<Rightarrow> go_error + bool" where
  "go_close closed = (if closed then Inl CloseOfClosedChannel else Inr True)"

definition server_Stop :: "server \<Rightarrow> go_error + server" where
  "server_Stop s =
     (if stop_done s then Inr s
      else case go_close (stopChan_closed s) of
             Inl e \<Rightarrow> Inl e
           | Inr c \<Rightarrow> Inr (s\<lparr>stop_done := True, stopChan_closed := c\<rparr>))"

section \<open>The accept loop\<close>

datatype accept_result = AcceptConn nat | AcceptTimeout | AcceptErr string

text \<open>The loop of \<open>listenAndServe\<close> over the outcomes \<open>acc i\<close> of successive
  \<open>Accept\<close> calls from the \<open>i\<close>-th on: the connections handed to \<open>Handle\<close> and
  the error sent on \<open>errChan\<close>; \<open>None\<close> when the loop never ends.\<close>

partial_function (option) accept_loop :: "(nat \<Rightarrow> accept_result) \<Rightarrow> nat \<Rightarrow> (nat list \<times> string) option" where
  "accept_loop acc i =
     (case acc i of
        AcceptTimeout \<Rightarrow> accept_loop acc (Suc i)
      | AcceptConn c \<Rightarrow> Option.bind (accept_loop acc (Suc i)) (\<lambda>(cs, e). Some (c # cs, e))
      | AcceptErr e \<Rightarrow> Some ([], e))"

section \<open>The server's goroutines\<close>

datatype listen_pc = LNotStarted | LListenFailed | LAccepting | LWaiting | LDone

datatype go_pc = GNone | GWaiting | GDone

record srv_system =
  srv :: server
  hstarts :: nat
  listen :: listen_pc
  sig :: go_pc
  closeChan :: nat
  errChan :: "string list"
  closer :: go_pc
  ctx_cancelled :: bool
  hcloses :: nat
  listener_closed :: bool
  wg :: nat
  handled :: "nat list"
  panicked :: bool

definition srv_init :: srv_system where
  "srv_init = \<lparr>srv = NewServer, hstarts = 0, listen = LNotStarted, sig = GNone, closeChan = 0,
     errChan = [], closer = GNone, ctx_cancelled = False, hcloses = 0, listener_closed = False,
     wg = 0, handled = [], panicked = False\<rparr>"

text \<open>\<open>Start\<close>: \<open>start_ok\<close> is the result of the handler's \<open>Start\<close>, \<open>listen_ok\<close>
  that of \<open>net.Listen\<close>.  The handler is started on every call; the body of
  \<open>run.Do\<close> runs on the first call only.\<close>

definition server_Start :: "bool \<Rightarrow> bool \<Rightarrow> srv_system \<Rightarrow> srv_system" where
  "server_Start start_ok listen_ok \<sigma> =
     (let \<sigma>1 = \<sigma>\<lparr>hstarts := Suc (hstarts \<sigma>)\<rparr> in
      if \<not> start_ok \<or> run_done (srv \<sigma>1) then \<sigma>1
      else let \<sigma>2 = \<sigma>1\<lparr>srv := (srv \<sigma>1)\<lparr>run_done := True\<rparr>, sig := GWaiting\<rparr> in
        if listen_ok then \<sigma>2\<lparr>listen := LAccepting, closer := GWaiting\<rparr>
        else \<sigma>2\<lparr>listen := LListenFailed\<rparr>)"

text \<open>The closer goroutine after its \<open>select\<close>: \<open>cancel()\<close>, the handler's
  \<open>Close\<close>, the listener's \<open>Close\<close>.\<close>

definition closer_shutdown :: "srv_system \<Rightarrow> srv_system" where
  "closer_shutdown \<sigma> =
     \<sigma>\<lparr>closer := GDone, ctx_cancelled := True, hcloses := Suc (hcloses \<sigma>), listener_closed := True\<rparr>"

text \<open>
  The goroutines' steps.  The signal goroutine leaves its \<open>select\<close> when
  \<open>stopChan\<close> is closed.  The closer receives from \<open>closeChan\<close> or from
  \<open>errChan\<close>; a receive from \<open>errChan\<close> once it is closed and empty yields a
  \<open>nil\<close> error, whose \<open>Error()\<close> panics.  \<open>Accept\<close> on a closed listener
  fails; a send on the one-slot \<open>errChan\<close> blocks while it is full.
\<close>

inductive srv_internal :: "srv_system \<Rightarrow> srv_system \<Rightarrow> bool" where
  sig_stop:
    "\<lbrakk>sig \<sigma> = GWaiting; stopChan_closed (srv \<sigma>); closeChan \<sigma> < 4\<rbrakk>
     \<Longrightarrow> srv_internal \<sigma> (\<sigma>\<lparr>closeChan := Suc (closeChan \<sigma>), sig := GDone\<rparr>)"
| closer_close:
    "\<lbrakk>closer \<sigma> = GWaiting; 0 < closeChan \<sigma>\<rbrakk>
     \<Longrightarrow> srv_internal \<sigma> (closer_shutdown (\<sigma>\<lparr>closeChan := closeChan \<sigma> - 1\<rparr>))"
| closer_err:
    "\<lbrakk>closer \<sigma> = GWaiting; errChan \<sigma> = e # es\<rbrakk>
     \<Longrightarrow> srv_internal \<sigma> (closer_shutdown (\<sigma>\<lparr>errChan := es\<rparr>))"
| closer_nil:
    "\<lbrakk>closer \<sigma> = GWaiting; errChan \<sigma> = []; listen \<sigma> = LDone\<rbrakk>
     \<Longrightarrow> srv_internal \<sigma> (\<sigma>\<lparr>closer := GDone, panicked := True\<rparr>)"
| accept_conn:
    "\<lbrakk>listen \<sigma> = LAccepting; \<not> listener_closed \<sigma>\<rbrakk>
     \<Longrightarrow> srv_internal \<sigma> (\<sigma>\<lparr>wg := Suc (wg \<sigma>), handled := handled \<sigma> @ [c]\<rparr>)"
| accept_timeout:
    "\<lbrakk>listen \<sigma> = LAccepting; \<not> listener_closed \<sigma>\<rbrakk> \<Longrightarrow> srv_internal \<sigma> \<sigma>"
| accept_err:
    "\<lbrakk>listen \<sigma> = LAccepting; length (errChan \<sigma>) < 1\<rbrakk>
     \<Longrightarrow> srv_internal \<sigma> (\<sigma>\<lparr>errChan := errChan \<sigma> @ [e], listen := LWaiting\<rparr>)"
| handle_done:
    "0 < wg \<sigma> \<Longrightarrow> srv_internal \<sigma> (\<sigma>\<lparr>wg := wg \<sigma> - 1\<rparr>)"
| wait_done:
    "\<lbrakk>listen \<sigma> = LWaiting; wg \<sigma> = 0\<rbrakk> \<Longrightarrow> srv_internal \<sigma> (\<sigma>\<lparr>listen := LDone\<rparr>)"

text \<open>The calls from outside: \<open>Start\<close>, \<open>Stop\<close> (a panic there is not
  recovered), and the delivery of an exit signal (\<open>signal.Notify\<close> delivers
  no other).\<close>

inductive srv_step :: "srv_system \<Rightarrow> srv_system \<Rightarrow> bool" where
  internal: "srv_internal \<sigma> \<sigma>' \<Longrightarrow> srv_step \<sigma> \<sigma>'"
| start_call: "srv_step \<sigma> (server_Start start_ok listen_ok \<sigma>)"
| stop_call: "server_Stop (srv \<sigma>) = Inr s' \<Longrightarrow> srv_step \<sigma> (\<sigma>\<lparr>srv := s'\<rparr>)"
| stop_panic: "server_Stop (srv \<sigma>) = Inl e \<Longrightarrow> srv_step \<sigma> (\<sigma>\<lparr>panicked := True\<rparr>)"
| signal:
    "\<lbrakk>sig \<sigma> = GWaiting; sg \<in> set exitSignal; closeChan \<sigma> < 4\<rbrakk>
     \<Longrightarrow> srv_step \<sigma> (\<sigma>\<lparr>closeChan := Suc (closeChan \<sigma>), sig := GDone\<rparr>)"

inductive srv_reachable :: "srv_system \<Rightarrow> bool" where
  init: "srv_reachable srv_init"
| step: "srv_reachable \<sigma> \<Longrightarrow> srv_step \<sigma> \<sigma>' \<Longrightarrow> srv_reachable \<sigma>'"

text \<open>The invariant of the server's goroutines.\<close>

definition srv_inv :: "srv_system \<Rightarrow> bool" where
  "srv_inv \<sigma> \<longleftrightarrow>
     \<not> panicked \<sigma> \<and>
     stopChan_closed (srv \<sigma>) = stop_done (srv \<sigma>) \<and>
     (run_done (srv \<sigma>) \<longleftrightarrow> listen \<sigma> \<noteq> LNotStarted) \<and>
     (sig \<sigma> = GNone \<longleftrightarrow> listen \<sigma> = LNotStarted) \<and>
     (closer \<sigma> = GNone \<longleftrightarrow> listen \<sigma> \<in> {LNotStarted, LListenFailed}) \<and>
     (listen \<sigma> = LAccepting \<longrightarrow> errChan \<sigma> = []) \<and>
     length (errChan \<sigma>) \<le> 1 \<and> (errChan \<sigma> \<noteq> [] \<longrightarrow> listen \<sigma> \<in> {LWaiting, LDone}) \<and>
     (listen \<sigma> \<in> {LWaiting, LDone} \<longrightarrow> errChan \<sigma> \<noteq> [] \<or> closer \<sigma> = GDone) \<and>
     (sig \<sigma> \<noteq> GDone \<longrightarrow> closeChan \<sigma> = 0) \<and> closeChan \<sigma> \<le> 1 \<and>
     (sig \<sigma> = GDone \<and> closer \<sigma> = GWaiting \<longrightarrow> closeChan \<sigma> = 1) \<and>
     hcloses \<sigma> = (if closer \<sigma> = GDone then 1 else 0) \<and>
     listener_closed \<sigma> = (closer \<sigma> = GDone) \<and> ctx_cancelled \<sigma> = (closer \<sigma> = GDone) \<and>
     (listen \<sigma> \<noteq> LNotStarted \<longrightarrow> 0 < hstarts \<sigma>) \<and>
     (handled \<sigma> \<noteq> [] \<longrightarrow> listen \<sigma> \<notin> {LNotStarted, LListenFailed}) \<and>
     (listen \<sigma> = LDone \<longrightarrow> wg \<sigma> = 0)"


section \<open>The invariant of the server's goroutines\<close>

lemma srv_inv_init: "srv_inv srv_init"
  by (simp add: srv_inv_def srv_init_def NewServer_def)

lemma srv_inv_internal:
  assumes "srv_internal \<sigma> \<sigma>'" "srv_inv \<sigma>"
  shows "srv_inv \<sigma>'"
  using assms
proof cases
  case (closer_nil)
  then show ?thesis using assms(2) by (simp add: srv_inv_def)
qed (use assms(2) in \<open>simp_all add: srv_inv_def closer_shutdown_def\<close>)

lemma server_Stop_ok:
  assumes "stopChan_closed s = stop_done s"
  shows "server_Stop s = Inr (s\<lparr>stop_done := True, stopChan_closed := True\<rparr>)"
  using assms by (cases s) (auto simp: server_Stop_def go_close_def)

lemma srv_inv_step:
  assumes "srv_step \<sigma> \<sigma>'" "srv_inv \<sigma>"
  shows "srv_inv \<sigma>'"
  using assms
proof cases
  case (internal)
  then show ?thesis using srv_inv_internal assms(2) by blast
next
  case (start_call start_ok listen_ok)
  then show ?thesis using assms(2) by (cases "listen \<sigma>") (simp_all add: srv_inv_def server_Start_def Let_def)
next
  case (stop_call s')
  then show ?thesis using assms(2) server_Stop_ok [of "srv \<sigma>"] by (simp add: srv_inv_def)
next
  case (stop_panic e)
  then show ?thesis using assms(2) server_Stop_ok [of "srv \<sigma>"] by (simp add: srv_inv_def)
next
  case (signal sg)
  then show ?thesis using assms(2) by (simp add: srv_inv_def)
qed

lemma srv_inv_reachable: "srv_reachable \<sigma> \<Longrightarrow> srv_inv \<sigma>"
  by (induction rule: srv_reachable.induct) (auto intro: srv_inv_init srv_inv_step)

section \<open>Helper facts\<close>

lemma accept_loop_returns:
  assumes "acc n = AcceptErr e" "i \<le> n"
  shows "accept_loop acc i \<noteq> None"
  using assms(2)
proof (induction "n - i" arbitrary: i)
  case 0
  then have "i = n" by simp
  then show ?case using assms(1) by (simp add: accept_loop.simps)
next
  case (Suc m)
  then have IH: "accept_loop acc (Suc i) \<noteq> None" by simp
  show ?case
    using IH by (cases "acc i") (auto simp: accept_loop.simps [of acc i])
qed

lemma accept_loop_error:
  assumes "accept_loop acc i = Some r"
  shows "\<exists>n\<ge>i. \<exists>e. acc n = AcceptErr e"
  using assms
proof (induction rule: accept_loop.raw_induct [rotated, consumes 1])
  case (1 loop acc i r)
  show ?case
  proof (cases "acc i")
    case (AcceptConn c)
    then obtain r' where "loop acc (Suc i) = Some r'" using 1(2) by (cases "loop acc (Suc i)") auto
    then show ?thesis using 1(1) by (meson Suc_leD)
  next
    case AcceptTimeout
    then have "loop acc (Suc i) = Some r" using 1(2) by simp
    then show ?thesis using 1(1) by (meson Suc_leD)
  qed auto
qed

lemma srv_internal_measure:
  assumes "srv_internal \<sigma> \<sigma>'" "listener_closed \<sigma>"
  shows "(if sig \<sigma>' = GWaiting then 2 else 0) + (if closer \<sigma>' = GWaiting then 1 else 0) + wg \<sigma>' +
           (case listen \<sigma>' of LAccepting \<Rightarrow> 2 | LWaiting \<Rightarrow> 1 | _ \<Rightarrow> 0)
         < (if sig \<sigma> = GWaiting then 2 else 0) + (if closer \<sigma> = GWaiting then 1 else 0) + wg \<sigma> +
           (case listen \<sigma> of LAccepting \<Rightarrow> 2 | LWaiting \<Rightarrow> 1 | _ \<Rightarrow> (0::nat))"
  using assms by cases (simp_all add: closer_shutdown_def)

lemma srv_inv_internals: "srv_internal\<^sup>*\<^sup>* \<sigma> \<sigma>' \<Longrightarrow> srv_inv \<sigma> \<Longrightarrow> srv_inv \<sigma>'"
  by (induction rule: rtranclp_induct) (auto intro: srv_inv_internal)

lemma drain_handlers: "wg \<sigma> = n \<Longrightarrow> srv_internal\<^sup>*\<^sup>* \<sigma> (\<sigma>\<lparr>wg := 0\<rparr>)"
proof (induction n arbitrary: \<sigma>)
  case 0
  then have "\<sigma>\<lparr>wg := 0\<rparr> = \<sigma>" by (cases \<sigma>) simp
  then show ?case by simp
next
  case (Suc n)
  have "srv_internal \<sigma> (\<sigma>\<lparr>wg := n\<rparr>)" using srv_internal.handle_done [of \<sigma>] Suc.prems by simp
  moreover have "srv_internal\<^sup>*\<^sup>* (\<sigma>\<lparr>wg := n\<rparr>) (\<sigma>\<lparr>wg := 0\<rparr>)" using Suc.IH [of "\<sigma>\<lparr>wg := n\<rparr>"] by simp
  ultimately show ?case by (rule converse_rtranclp_into_rtranclp)
qed

lemma closer_reaches_done:
  assumes inv: "srv_inv \<sigma>" and w: "closer \<sigma> = GWaiting" and stop: "stopChan_closed (srv \<sigma>)"
  shows "\<exists>\<sigma>'. srv_internal\<^sup>*\<^sup>* \<sigma> \<sigma>' \<and> closer \<sigma>' = GDone \<and> listen \<sigma>' = listen \<sigma>"
proof (cases "errChan \<sigma>")
  case (Cons e es)
  then show ?thesis using srv_internal.closer_err [OF w Cons]
    by (auto simp: closer_shutdown_def intro: r_into_rtranclp)
next
  case Nil
  show ?thesis
  proof (cases "0 < closeChan \<sigma>")
    case True
    then show ?thesis using srv_internal.closer_close [OF w True]
      by (auto simp: closer_shutdown_def intro: r_into_rtranclp)
  next
    case False
    then have sg: "sig \<sigma> = GWaiting" using inv w by (cases "sig \<sigma>") (auto simp: srv_inv_def)
    let ?\<sigma>1 = "\<sigma>\<lparr>closeChan := Suc (closeChan \<sigma>), sig := GDone\<rparr>"
    have s1: "srv_internal \<sigma> ?\<sigma>1" using srv_internal.sig_stop [OF sg stop] False by simp
    have s2: "srv_internal ?\<sigma>1 (closer_shutdown (?\<sigma>1\<lparr>closeChan := closeChan ?\<sigma>1 - 1\<rparr>))"
      using srv_internal.closer_close [of ?\<sigma>1] w by simp
    show ?thesis using s1 s2 by (auto simp: closer_shutdown_def intro: rtranclp.rtrancl_into_rtrancl [OF r_into_rtranclp])
  qed
qed

lemma loop_reaches_done:
  assumes inv: "srv_inv \<sigma>" and d: "closer \<sigma> = GDone" and l: "listen \<sigma> \<in> {LAccepting, LWaiting}"
  shows "\<exists>\<sigma>'. srv_internal\<^sup>*\<^sup>* \<sigma> \<sigma>' \<and> listen \<sigma>' = LDone \<and> closer \<sigma>' = GDone"
proof -
  obtain \<sigma>1 where s1: "srv_internal\<^sup>*\<^sup>* \<sigma> \<sigma>1" "listen \<sigma>1 = LWaiting" "closer \<sigma>1 = GDone"
  proof (cases "listen \<sigma> = LAccepting")
    case True
    then have "errChan \<sigma> = []" using inv by (simp add: srv_inv_def)
    then have "srv_internal \<sigma> (\<sigma>\<lparr>errChan := [''use of closed network connection''], listen := LWaiting\<rparr>)"
      using srv_internal.accept_err [OF True, of "''use of closed network connection''"] by simp
    then show ?thesis using that [OF r_into_rtranclp] d by simp
  next
    case False
    then show ?thesis using that d l by auto
  qed
  let ?\<sigma>2 = "\<sigma>1\<lparr>wg := 0\<rparr>"
  have "srv_internal\<^sup>*\<^sup>* \<sigma>1 ?\<sigma>2" using drain_handlers by blast
  moreover have "srv_internal ?\<sigma>2 (?\<sigma>2\<lparr>listen := LDone\<rparr>)" using srv_internal.wait_done [of ?\<sigma>2] s1(2) by simp
  ultimately have "srv_internal\<^sup>*\<^sup>* \<sigma> (?\<sigma>2\<lparr>listen := LDone\<rparr>)" using s1(1) by (meson rtranclp.rtrancl_into_rtrancl rtranclp_trans)
  then show ?thesis using s1(3) by auto
qed

lemma srv_reachable_started: "srv_reachable (server_Start True True srv_init)"
  by (rule srv_reachable.step [OF srv_reachable.init srv_step.start_call])

lemma srv_started_facts:
  "listen (server_Start True True srv_init) = LAccepting"
  "hstarts (server_Start True True srv_init) = 1"
  "\<not> listener_closed (server_Start True True srv_init)"
  "srv (server_Start True True srv_init) = NewServer\<lparr>run_done := True\<rparr>"
  "wg (server_Start True True srv_init) = 0" "handled (server_Start True True srv_init) = []"
  by (simp_all add: server_Start_def srv_init_def NewServer_def)

lemma restart_reload_value:
  "(case Start \<lparr>year = 2024, month = 11, day = 25, hour = 13, minute = 7, second = 9, nanosecond = 0\<rparr>
          (Some (encode_log [[Some ''rpush'', Some ''k'', Some ''a'']])) empty_store of
      Inl e \<Rightarrow> None
    | Inr (_, s1) \<Rightarrow> (case Start \<lparr>year = 2024, month = 11, day = 25, hour = 13, minute = 7, second = 9, nanosecond = 0\<rparr>
          (Some (encode_log [[Some ''rpush'', Some ''k'', Some ''a'']])) s1 of
        Inl e \<Rightarrow> None
      | Inr (_, s2) \<Rightarrow> Some (view \<lparr>year = 2024, month = 11, day = 25, hour = 13, minute = 7, second = 9, nanosecond = 0\<rparr> s2 ''k'')))
   = Some (Some (AList [Some ''a'', Some ''a''], None))"
  by code_simp

lemma Start_Some_loaded: "Start now (Some bs) s = Inr (b, s') \<Longrightarrow> b = False"
  by (cases "handleStream (loading_Do now) (parse_stream bs) s") (auto simp: Start_def)

section \<open>Properties of the server\<close>

text \<open>
  C23.  The accept loop of \<open>listenAndServe\<close> returns exactly when some \<open>Accept\<close>
  from its start on fails with an error other than a timeout; on timeouts and
  accepted connections it keeps looping.
\<close>

theorem accept_loop_terminates:
  "accept_loop acc i \<noteq> None \<longleftrightarrow> (\<exists>n\<ge>i. \<exists>e. acc n = AcceptErr e)"
  using accept_loop_returns accept_loop_error by blast

text \<open>
  C24.  Once the listener is closed, the server's goroutines stop after finitely
  many steps, whatever the scheduler does: the relation of their steps from
  such states is well founded.
\<close>

theorem shutdown_terminates: "wf {(\<sigma>', \<sigma>). srv_internal \<sigma> \<sigma>' \<and> listener_closed \<sigma>}"
proof (rule wf_subset [OF wf_measure])
  show "{(\<sigma>', \<sigma>). srv_internal \<sigma> \<sigma>' \<and> listener_closed \<sigma>} \<subseteq>
          measure (\<lambda>\<sigma>. (if sig \<sigma> = GWaiting then 2 else 0) + (if closer \<sigma> = GWaiting then 1 else 0) + wg \<sigma> +
             (case listen \<sigma> of LAccepting \<Rightarrow> 2 | LWaiting \<Rightarrow> 1 | _ \<Rightarrow> 0))"
    using srv_internal_measure by auto
qed



text \<open>
  C26.  No reachable state of the server has panicked: \<open>Stop\<close> never closes a
  closed channel, the closer never reads a \<open>nil\<close> error from the closed
  \<open>errChan\<close>, the handler is closed at most once and the send on \<open>errChan\<close>
  never finds it full.
\<close>

theorem server_never_panics:
  assumes "srv_reachable \<sigma>"
  shows "\<not> panicked \<sigma> \<and> hcloses \<sigma> \<le> 1 \<and> length (errChan \<sigma>) \<le> 1"
  using srv_inv_reachable [OF assms] by (simp add: srv_inv_def)

theorem server_never_panics_witness:
  "\<not> panicked (server_Start True True srv_init) \<and> hcloses (server_Start True True srv_init) \<le> 1 \<and>
   length (errChan (server_Start True True srv_init)) \<le> 1"
  using server_never_panics [OF srv_reachable_started] .



text \<open>
  C28.  The accept loop hands to \<open>Handle\<close> exactly the connections accepted
  before the first non-timeout error, in order, and sends that error on
  \<open>errChan\<close>.
\<close>

theorem accept_loop_result:
  assumes "acc n = AcceptErr e" "i \<le> n" "\<forall>j e'. i \<le> j \<and> j < n \<longrightarrow> acc j \<noteq> AcceptErr e'"
  shows "accept_loop acc i =
           Some (List.map_filter (\<lambda>r. case r of AcceptConn c \<Rightarrow> Some c | _ \<Rightarrow> None) (map acc [i..<n]), e)"
  using assms(2,3)
proof (induction "n - i" arbitrary: i)
  case 0
  then have "i = n" by simp
  then show ?case using assms(1) by (simp add: accept_loop.simps map_filter_simps)
next
  case (Suc m)
  then have lt: "i < n" by simp
  have IH: "accept_loop acc (Suc i) =
              Some (List.map_filter (\<lambda>r. case r of AcceptConn c \<Rightarrow> Some c | _ \<Rightarrow> None) (map acc [Suc i..<n]), e)"
    using Suc by simp
  have ne: "\<forall>e'. acc i \<noteq> AcceptErr e'" using Suc.prems(2) lt by simp
  show ?case using IH ne lt
    by (cases "acc i") (simp_all add: accept_loop.simps [of acc i] upt_conv_Cons map_filter_simps)
qed

theorem accept_loop_result_witness:
  "accept_loop (\<lambda>j. if j = 0 then AcceptConn 5 else if j = 1 then AcceptTimeout else if j = 2 then AcceptConn 6
                    else AcceptErr ''closed'') 0 = Some ([5, 6], ''closed'')"
proof -
  have "accept_loop (\<lambda>j. if j = 0 then AcceptConn 5 else if j = 1 then AcceptTimeout else if j = 2 then AcceptConn 6
                    else AcceptErr ''closed'') 0 =
        Some (List.map_filter (\<lambda>r. case r of AcceptConn c \<Rightarrow> Some c | _ \<Rightarrow> None)
          (map (\<lambda>j. if j = 0 then AcceptConn 5 else if j = 1 then AcceptTimeout else if j = 2 then AcceptConn 6
                    else AcceptErr ''closed'') [0..<3]), ''closed'')"
    by (rule accept_loop_result) auto
  then show ?thesis by (simp add: upt_rec map_filter_simps)
qed


end
