(* ===== verification/Spec2Isabelle.thy ===== *)
theory Spec2Isabelle
  imports Rewrite Server
begin

text \<open>
  \<^bold>\<open>A verification development for TinyRedis.\<close>

  TinyRedis is an in-memory key-value store in Go with Redis-style append-only
  file (AOF) persistence.  A client command travels through the handler
  (\<open>src/handler/handler.go\<close>: \<open>handleStream\<close>, \<open>handleDroplet\<close>), the trigger
  (\<open>src/database/trigger.go\<close>: \<open>DBTrigger.Do\<close>, which validates the command line
  and hands a \<open>Command\<close> to the executor over a channel), the single executor that
  owns the key-value store, and the AOF persister that appends every applied
  write.  A reload (\<open>Handler.Start\<close>) feeds the log back through the same
  handler and trigger.  The rewrite (\<open>src/persist/aof_rewrite.go\<close>) compacts the
  log while live writes continue: it replays a prefix of the log into a
  throw-away store, writes each value's reconstruction command (\<open>ToCmd\<close>) and
  splices in the tail appended meanwhile.  The one value type whose code is in
  the repository is the list entity (\<open>src/datastore/list.go\<close>), a ring-buffer
  deque.

  \<^bold>\<open>Theories and their correspondence to the code.\<close>
  \<^item> \<open>Prelude\<close>: the types that stand for Go values (\<open>byteslice\<close> is a Go
    \<open>[]byte\<close>, \<open>None\<close> being \<open>nil\<close>), the runtime panics the model makes
    explicit (\<open>go_error\<close>), the builtins \<open>copy\<close> and slicing, decimal
    printing and \<open>strconv.ParseInt\<close>, powers of two, and the rotation lemmas
    the ring buffer is read through.
  \<^item> \<open>Capacity\<close>: \<open>defaultCap\<close>, \<open>maxCap\<close> and \<open>setCap\<close> of \<open>list.go\<close>;
    \<open>setCap\<close> is computed on \<open>64 word\<close>, Go's \<open>int\<close>, with its arithmetic shifts
    and its wrapping increment.
  \<^item> \<open>ListEntity\<close>: the record \<open>list_entity\<close> (the struct \<open>listEntity\<close>), one
    definition per method (\<open>newListEntity\<close>, \<open>grow\<close>, \<open>LPush\<close>, \<open>LPop\<close>,
    \<open>RPush\<close>, \<open>RPop\<close>, \<open>Len\<close>, \<open>get\<close>, \<open>ListRange\<close> for \<open>Range\<close>,
    \<open>ToCmd\<close>), the pop loops as recursion on the count.  \<open>list_of\<close> reads the
    deque as the rotation of the buffer at \<open>head\<close> cut at \<open>size\<close>;
    \<open>ring_inv\<close> is the representation invariant; \<open>deque_step\<close> is the
    contract on plain lists and \<open>list_step\<close> dispatches to the methods.
  \<^item> \<open>Resp\<close>: the reply values and the multi-bulk command encoding of the wire and
    the log (\<open>encode_cmd\<close>, \<open>encode_log\<close>) with its decoder, modelled from the
    specification because the protocol package is not in the repository.
  \<^item> \<open>Time\<close>: \<open>src/pkg/time.go\<close> (the layout constant, \<open>TimeSecondFormat\<close>,
    \<open>ParseTimeSecondFormat\<close>) over a model of Go's layout-driven formatting and
    parsing of the numeric layout elements.
  \<^item> \<open>Store\<close>: the \<open>KVStore\<close> maps (\<open>kvstore\<close>), \<open>getAsList\<close>,
    \<open>putAsList\<close> and \<open>ForEach\<close> as in the source, and the executor's command
    handlers (\<open>exec_cmd\<close> = \<open>parse_command\<close>, lazy expiry, \<open>apply_cmd\<close>),
    modelled from the specification.  Its contract is \<open>a_exec\<close> on \<open>view\<close>,
    the map of live keys to their list or string and their expiry.
  \<^item> \<open>Trigger\<close>: \<open>DBTrigger.Do\<close> as \<open>Do_validate\<close> followed by the executor
    step (\<open>trigger_Do\<close>), its contract \<open>a_Do\<close>, and \<open>Close\<close> through
    \<open>sync.Once\<close>.
  \<^item> \<open>Handler\<close>: \<open>handleDroplet\<close> and \<open>handleStream\<close> over the droplets of the
    (spec-modelled) parser, \<open>Start\<close> (reload), \<open>Handle\<close> and \<open>Close\<close> as
    updates of the handler's state; \<open>replay\<close> is the reload of a command
    sequence and \<open>a_replay\<close> the same on the contract.
  \<^item> \<open>Rewrite\<close>: the persister's files as a map from paths to contents;
    \<open>startRewrite\<close>, \<open>forkDB\<close>, \<open>doRewrite\<close> (with \<open>rewrite_cmds\<close>, the
    \<open>ForEach\<close> callback), \<open>endRewrite\<close> and \<open>rewriteAOF\<close>.  The I/O results
    the code cannot decide (the fsync, the temporary name, the rename, Go's map
    iteration order) are inputs.  The concurrency is the inductive relation
    \<open>aof_step\<close>: a step is a live command with its log append, or one phase of a
    rewrite; \<open>aof_reachable\<close> is its closure from an empty log.
  \<^item> \<open>Server\<close>: \<open>src/server/server.go\<close>.  The \<open>Server\<close> struct (its two
    \<open>sync.Once\<close> and \<open>stopChan\<close>), \<open>NewServer\<close>, \<open>Start\<close> and \<open>Stop\<close>
    as definitions; the signal goroutine, the closer goroutine, the accept loop,
    the connection goroutines and the \<open>WaitGroup\<close> as the step relation
    \<open>srv_internal\<close> over the channels' contents (\<open>srv_step\<close> adds the calls
    from outside and signal delivery); the accept loop alone over a stream of
    \<open>Accept\<close> outcomes as the \<open>partial_function\<close> \<open>accept_loop\<close>.

  \<^bold>\<open>What is proved.\<close>
  \<^item> List entity (C1 to C8, C10): every method keeps \<open>ring_inv\<close>; any sequence of
    operations refines the deque contract; \<open>Range\<close>, \<open>ToCmd\<close> and
    \<open>newListEntity\<close> are correct; and two defects: a push onto a full list at
    \<open>maxCap\<close> overwrites an element, and \<open>newListEntity\<close> with exactly
    \<open>cap\<close> elements leaves \<open>tail = cap\<close>.
  \<^item> \<open>setCap\<close> (C9) wraps to a negative capacity near \<open>2^63\<close>.
  \<^item> Time (C11, C12): the layout constant is not Go's reference time, so every
    parsed time is midnight of year 0 (always in the past), and formatted dates
    with a one-digit day do not parse back.
  \<^item> Trigger (C13, C14, C18, C22): malformed lines are rejected without effect,
    command names are case-insensitive, and the logged line of a step is a redo
    record of it, and every step keeps the store well formed.
  \<^item> Handler (C15 to C17): reloading an encoded log refines the contract's replay
    of its commands, the handler answers each request once, and \<open>Close\<close> closes
    the database and persister exactly once.
  \<^item> Rewrite (C19 to C21): the invariant \<open>log_inv\<close> (the log encodes a command
    sequence that replays to the live store; during a rewrite it splits at the
    recorded size, and the rebuilt temporary file replays like the prefix it
    replaces) holds in every reachable state by rule induction; hence a reload
    after any interleaving restores the live store (C19), the rewritten file is
    equivalent to the prefix (C20), and a rebuilt rewrite can always finish (C21).
  \<^item> Server (C23 to C29): the accept loop returns exactly when an \<open>Accept\<close>
    fails with a non-timeout error (C23) and then hands on exactly the
    connections accepted before it (C28); once the listener is closed every
    schedule of the goroutines is finite (C24, a well-founded measure); after
    \<open>Stop\<close> a graceful shutdown is always reachable (C25); no reachable state
    panics (C26, by the invariant \<open>srv_inv\<close> and rule induction); connections
    are served only after the reload (C27); and a second \<open>Start\<close> reloads the
    log again into the live store (C29, a defect).

  \<^bold>\<open>Bounds and hypotheses.\<close>  Loops are structural recursion or \<open>function\<close>s
  with a measure (\<open>decode_log\<close>, the parser's stream, the layout tokenizer), so
  no fuel is needed.  The accept loop may run forever (every \<open>Accept\<close> may
  time out), so it is a \<open>partial_function (option)\<close> whose termination is
  proved exactly (C23).  Pushes are assumed not to take a list past \<open>maxCap\<close>
  (\<open>a_fits\<close>, \<open>line_fits\<close>, \<open>replay_fits\<close>): beyond it the code overwrites
  data (C7).  The rewrite theorems read the clock at times after year 0; since
  every expiry the store can hold lies in year 0 (C11), the contract does not
  depend on which such time it is read at.

  \<^bold>\<open>Not modelled.\<close>  The goroutine pool (\<open>src/pkg/pool.go\<close>) is a
  wrapper of the \<open>ants\<close> library; the server model uses only its behaviour
  that a panicking task is recovered and ends.  Dependency wiring
  (\<open>src/app/factory.go\<close>), the application wrapper (\<open>src/app/app.go\<close>:
  \<open>Run\<close> and \<open>Stop\<close> forward to the server's \<open>Start\<close> and \<open>Stop\<close>),
  \<open>src/main.go\<close> and the logger's configuration construct objects and
  produce log output only.  The server's log messages and the handler's
  context-driven connection handling are not modelled.  The executor goroutine, the protocol parser and the persister's
  append path are not in the repository and are modelled from the
  specification.  Cancellation through contexts is not modelled.
\<close>

end
